theory Spec2Isabelle
  imports Complex_Main "HOL-Library.Word" "HOL-Library.Multiset" "HOL-Library.Signed_Division"
begin

section \<open>Machine integers\<close>

text \<open>
  The C type \<^verbatim>\<open>int\<close> of the benchmarks is a 32-bit two's-complement integer.
  Values that are stored in the queue, added into totals or counted in the shared
  counter are modelled as \<open>32 word\<close>: addition wraps modulo \<open>2 ^ 32\<close> and
  \<open>sint\<close> reads the value that \<^verbatim>\<open>printf("%d")\<close> shows.

  The queue's indices \<^verbatim>\<open>head\<close>, \<^verbatim>\<open>tail\<close> and its \<^verbatim>\<open>size\<close> are
  declared \<^verbatim>\<open>int\<close> as well. They start at 0 and are only ever assigned the result
  of \<^verbatim>\<open>(index + 1) % size\<close>, so they are never negative; they are modelled as
  \<open>nat\<close>, and the well-formedness predicate \<open>wf_queue\<close> keeps \<open>size\<close> below
  \<open>2 ^ 31\<close>, so that \<^verbatim>\<open>index + 1\<close> never overflows and C's truncating
  \<^verbatim>\<open>%\<close> agrees with \<open>mod\<close>.
\<close>

type_synonym c_int = "32 word"

section \<open>The lock-free queue (lockfree\_queue\_benchmark.c, src/unnamed/part\_003)\<close>

text \<open>
  Undefined behaviour of the C code is a value of the model: dereferencing a null
  buffer, indexing outside the allocation and the remainder by zero.
\<close>

datatype fault = NullDeref | OutOfBounds | DivByZero

text \<open>
  \<^verbatim>\<open>typedef struct { int *buffer; _Atomic int head; _Atomic int tail; int size; }
  lockfree_queue_t;\<close>
  The buffer pointer is \<open>None\<close> when it is \<^verbatim>\<open>NULL\<close>, otherwise the allocated
  cells.
\<close>

record lockfree_queue_t =
  buffer :: "c_int list option"
  head :: nat
  tail :: nat
  size_q :: nat

text \<open>
  \<^verbatim>\<open>queue_init\<close> stores the result of \<^verbatim>\<open>malloc\<close> without looking at it. The
  result of \<^verbatim>\<open>malloc\<close> is a parameter: \<open>None\<close> for a failed allocation,
  \<open>Some cells\<close> for fresh cells of indeterminate content. The requested size is
  a \<open>nat\<close>: \<^verbatim>\<open>main\<close> passes \<^verbatim>\<open>QUEUE_SIZE\<close>, and a negative size is outside
  the model.
\<close>

definition queue_init :: "c_int list option \<Rightarrow> nat \<Rightarrow> lockfree_queue_t" where
  "queue_init malloc_result n =
     \<lparr>buffer = malloc_result, head = 0, tail = 0, size_q = n\<rparr>"

text \<open>
  \<^verbatim>\<open>int queue_enqueue(lockfree_queue_t *queue, int item)\<close>: the new queue and the
  returned \<^verbatim>\<open>int\<close>.
\<close>

definition queue_enqueue :: "lockfree_queue_t \<Rightarrow> c_int \<Rightarrow> fault + (lockfree_queue_t \<times> int)" where
  "queue_enqueue q item =
     (let t = tail q in
      if size_q q = 0 then Inl DivByZero
      else
        let next_tail = (t + 1) mod size_q q in
        if next_tail = head q then Inr (q, 0)
        else
          (case buffer q of
             None \<Rightarrow> Inl NullDeref
           | Some b \<Rightarrow>
               if t < length b
               then Inr (q\<lparr>buffer := Some (b[t := item]), tail := next_tail\<rparr>, 1)
               else Inl OutOfBounds))"

text \<open>
  \<^verbatim>\<open>int queue_dequeue(lockfree_queue_t *queue, int *item)\<close>: the second argument
  is the content of \<^verbatim>\<open>*item\<close> before the call; the result holds the new queue,
  the content of \<^verbatim>\<open>*item\<close> after the call and the returned \<^verbatim>\<open>int\<close>.
\<close>

definition queue_dequeue ::
  "lockfree_queue_t \<Rightarrow> c_int \<Rightarrow> fault + (lockfree_queue_t \<times> c_int \<times> int)" where
  "queue_dequeue q item =
     (let h = head q in
      if h = tail q then Inr (q, item, 0)
      else
        (case buffer q of
           None \<Rightarrow> Inl NullDeref
         | Some b \<Rightarrow>
             if h < length b
             then
               (if size_q q = 0 then Inl DivByZero
                else Inr (q\<lparr>head := (h + 1) mod size_q q\<rparr>, b ! h, 1))
             else Inl OutOfBounds))"

text \<open>
  A well-formed queue: a positive capacity that fits an \<^verbatim>\<open>int\<close>, both indices
  inside the capacity and a buffer of exactly that many cells.
\<close>

definition wf_queue :: "lockfree_queue_t \<Rightarrow> bool" where
  "wf_queue q =
     (0 < size_q q \<and> size_q q < 2 ^ 31 \<and> head q < size_q q \<and> tail q < size_q q \<and>
      (case buffer q of None \<Rightarrow> False | Some b \<Rightarrow> length b = size_q q))"

text \<open>The number of resident elements, \<open>(tail - head) mod C\<close>.\<close>

definition resident :: "lockfree_queue_t \<Rightarrow> nat" where
  "resident q = nat ((int (tail q) - int (head q)) mod int (size_q q))"

text \<open>
  A sequence of calls made one after the other by a single caller. \<open>Dequeue v\<close>
  carries the content of the caller's \<^verbatim>\<open>item\<close> variable before the call.
  Besides the final queue, the run counts the calls of \<^verbatim>\<open>queue_enqueue\<close> and of
  \<^verbatim>\<open>queue_dequeue\<close> that returned 1.
\<close>

datatype queue_op = Enqueue c_int | Dequeue c_int

fun run_ops :: "lockfree_queue_t \<Rightarrow> queue_op list \<Rightarrow> fault + (lockfree_queue_t \<times> nat \<times> nat)" where
  "run_ops q [] = Inr (q, 0, 0)"
| "run_ops q (Enqueue x # ops) =
     (case queue_enqueue q x of
        Inl f \<Rightarrow> Inl f
      | Inr (q', r) \<Rightarrow>
          (case run_ops q' ops of
             Inl f \<Rightarrow> Inl f
           | Inr (q'', e, d) \<Rightarrow> Inr (q'', (if r = 1 then e + 1 else e), d)))"
| "run_ops q (Dequeue v # ops) =
     (case queue_dequeue q v of
        Inl f \<Rightarrow> Inl f
      | Inr (q', v', r) \<Rightarrow>
          (case run_ops q' ops of
             Inl f \<Rightarrow> Inl f
           | Inr (q'', e, d) \<Rightarrow> Inr (q'', e, (if r = 1 then d + 1 else d))))"

subsection \<open>The compiled-in parameters\<close>

definition QUEUE_SIZE :: nat where "QUEUE_SIZE = 1000000"
definition NUM_PRODUCERS :: nat where "NUM_PRODUCERS = 2"
definition NUM_CONSUMERS :: nat where "NUM_CONSUMERS = 2"
definition ITEMS_PER_PRODUCER :: nat where "ITEMS_PER_PRODUCER = 1000000"

subsection \<open>The values a producer emits and the expected total\<close>

text \<open>
  \<^verbatim>\<open>int item = thread_arg->thread_id * num_items + i + 1;\<close> in
  \<^verbatim>\<open>producer_thread\<close>, in 32-bit arithmetic. Overflow of this \<^verbatim>\<open>int\<close>
  expression is undefined in C; the model lets it wrap. With the compiled-in
  parameters the largest item is 2,000,000.
\<close>

definition producer_item :: "nat \<Rightarrow> nat \<Rightarrow> nat \<Rightarrow> c_int" where
  "producer_item thread_id num_items i = of_nat thread_id * of_nat num_items + of_nat i + 1"

text \<open>All values of all producers, producer by producer.\<close>

definition produced :: "nat \<Rightarrow> nat \<Rightarrow> c_int list" where
  "produced P M = concat (map (\<lambda>p. map (producer_item p M) [0..<M]) [0..<P])"

text \<open>
  The two nested loops of \<^verbatim>\<open>main\<close> that compute \<^verbatim>\<open>expected_total\<close>:
  \<^verbatim>\<open>for (i = 0; i < NUM_PRODUCERS; i++)
    for (j = 0; j < ITEMS_PER_PRODUCER; j++)
      expected_total += i * ITEMS_PER_PRODUCER + j + 1;\<close>
  with the number of producers \<open>P\<close> and the items per producer \<open>M\<close> as parameters.
  The arithmetic is \<open>32 word\<close> arithmetic: it wraps.
\<close>

function expected_inner :: "nat \<Rightarrow> nat \<Rightarrow> nat \<Rightarrow> c_int \<Rightarrow> c_int" where
  "expected_inner M i j acc =
     (if j < M
      then expected_inner M i (j + 1) (acc + (of_nat i * of_nat M + of_nat j + 1))
      else acc)"
  by pat_completeness auto
termination
  by (relation "measure (\<lambda>(M, i, j, acc). M - j)") auto

function expected_outer :: "nat \<Rightarrow> nat \<Rightarrow> nat \<Rightarrow> c_int \<Rightarrow> c_int" where
  "expected_outer P M i acc =
     (if i < P then expected_outer P M (i + 1) (expected_inner M i 0 acc) else acc)"
  by pat_completeness auto
termination
  by (relation "measure (\<lambda>(P, M, i, acc). P - i)") auto

definition expected_total :: "nat \<Rightarrow> nat \<Rightarrow> c_int" where
  "expected_total P M = expected_outer P M 0 0"

text \<open>
  The same loops with C's rule for \<^verbatim>\<open>int\<close> made explicit: every intermediate
  result is a mathematical integer that must lie in \<open>[-2^31, 2^31)\<close>; a result
  outside is signed overflow, \<open>None\<close>.
\<close>

definition in_int :: "int \<Rightarrow> int option" where
  "in_int x = (if - (2 ^ 31) \<le> x \<and> x < 2 ^ 31 then Some x else None)"

definition addend_checked :: "nat \<Rightarrow> nat \<Rightarrow> nat \<Rightarrow> int option" where
  "addend_checked M i j =
     (case in_int (int i * int M) of
        None \<Rightarrow> None
      | Some a \<Rightarrow> (case in_int (a + int j) of None \<Rightarrow> None | Some b \<Rightarrow> in_int (b + 1)))"

function expected_inner_checked :: "nat \<Rightarrow> nat \<Rightarrow> nat \<Rightarrow> int \<Rightarrow> int option" where
  "expected_inner_checked M i j acc =
     (if j < M
      then
        (case addend_checked M i j of
           None \<Rightarrow> None
         | Some a \<Rightarrow>
             (case in_int (acc + a) of
                None \<Rightarrow> None
              | Some acc' \<Rightarrow> expected_inner_checked M i (j + 1) acc'))
      else Some acc)"
  by pat_completeness auto
termination
  by (relation "measure (\<lambda>(M, i, j, acc). M - j)") auto

function expected_outer_checked :: "nat \<Rightarrow> nat \<Rightarrow> nat \<Rightarrow> int \<Rightarrow> int option" where
  "expected_outer_checked P M i acc =
     (if i < P
      then
        (case expected_inner_checked M i 0 acc of
           None \<Rightarrow> None
         | Some acc' \<Rightarrow> expected_outer_checked P M (i + 1) acc')
      else Some acc)"
  by pat_completeness auto
termination
  by (relation "measure (\<lambda>(P, M, i, acc). P - i)") auto

definition expected_total_checked :: "nat \<Rightarrow> nat \<Rightarrow> int option" where
  "expected_total_checked P M = expected_outer_checked P M 0 0"

text \<open>
  The consumers' accumulation: every dequeued item is added to the shared
  \<^verbatim>\<open>_Atomic int total\<close> by \<^verbatim>\<open>atomic_fetch_add(total, item)\<close>. The atomic
  additions of all consumers happen one after the other in some order; the list is
  the items in that order.
\<close>

fun consumer_total :: "c_int \<Rightarrow> c_int list \<Rightarrow> c_int" where
  "consumer_total tot [] = tot"
| "consumer_total tot (item # items) = consumer_total (tot + item) items"

text \<open>The mathematical value of item \<open>i\<close> of producer \<open>p\<close>, and the sum of all of them.\<close>

definition produced_value :: "nat \<Rightarrow> nat \<Rightarrow> nat \<Rightarrow> nat" where
  "produced_value p M i = p * M + i + 1"

definition produced_sum :: "nat \<Rightarrow> nat \<Rightarrow> nat" where
  "produced_sum P M = (\<Sum>p = 0..<P. \<Sum>i = 0..<M. produced_value p M i)"

subsection \<open>The threads, one shared access at a time\<close>

text \<open>
  \<^verbatim>\<open>producer_thread\<close> and \<^verbatim>\<open>consumer_thread\<close> run concurrently. Every access
  to \<^verbatim>\<open>head\<close>, \<^verbatim>\<open>tail\<close> and \<^verbatim>\<open>total\<close> is a sequentially consistent atomic
  operation and the accesses of one thread happen in program order, so an execution
  is an interleaving of steps, each holding exactly one access to shared memory
  together with the thread-local computation that follows it. A program counter names
  the next shared access of a thread:

  \<^item> producer, inside \<^verbatim>\<open>queue_enqueue\<close>: \<open>PLoadTail\<close> (line 38, preceded by the
    loop test \<^verbatim>\<open>i < num_items\<close>), \<open>PLoadHead\<close> (line 41; on equality the call
    returns 0 and the \<^verbatim>\<open>while\<close> loop calls again), \<open>PWrite\<close> (line 46),
    \<open>PStore\<close> (line 47; the call returns 1 and \<^verbatim>\<open>i++\<close> follows);
  \<^item> consumer, inside \<^verbatim>\<open>queue_dequeue\<close>: \<open>CLoadHead\<close> (line 53, preceded by the
    loop test), \<open>CLoadTail\<close> (line 55), \<open>CRead\<close> (line 60), \<open>CStore\<close>
    (line 61; the call returns 1), then \<open>CAdd\<close>, the
    \<^verbatim>\<open>atomic_fetch_add(total, item)\<close> of line 103.

  \<open>c_received\<close> is not a variable of the program: it records the items the calls of
  \<^verbatim>\<open>queue_dequeue\<close> have delivered to this consumer, in order.

  \<^verbatim>\<open>num_items\<close> of a producer is \<^verbatim>\<open>ITEMS_PER_PRODUCER\<close>, a \<open>nat\<close>.
  \<^verbatim>\<open>num_items\<close> of a consumer is the \<^verbatim>\<open>int\<close> that \<^verbatim>\<open>main\<close> computes with
  a product and a division; it can be negative, so it is an \<open>int\<close> and the loop
  test \<^verbatim>\<open>i < num_items\<close> compares integers.
\<close>

datatype ppc = PLoadTail | PLoadHead | PWrite | PStore | PReturned

datatype cpc = CLoadHead | CLoadTail | CRead | CStore | CAdd | CReturned

record producer =
  p_thread_id :: nat
  p_num_items :: nat
  p_i :: nat
  p_pc :: ppc
  p_tail :: nat
  p_next_tail :: nat

record consumer =
  c_thread_id :: nat
  c_num_items :: int
  c_i :: nat
  c_pc :: cpc
  c_head :: nat
  c_item :: c_int
  c_received :: "c_int list"

definition producer_step :: "lockfree_queue_t \<Rightarrow> producer \<Rightarrow> fault + (lockfree_queue_t \<times> producer)" where
  "producer_step q p =
     (case p_pc p of
        PLoadTail \<Rightarrow>
          if p_i p < p_num_items p
          then
            (if size_q q = 0 then Inl DivByZero
             else Inr (q, p\<lparr>p_tail := tail q,
                             p_next_tail := (tail q + 1) mod size_q q,
                             p_pc := PLoadHead\<rparr>))
          else Inr (q, p\<lparr>p_pc := PReturned\<rparr>)
      | PLoadHead \<Rightarrow>
          if p_next_tail p = head q
          then Inr (q, p\<lparr>p_pc := PLoadTail\<rparr>)
          else Inr (q, p\<lparr>p_pc := PWrite\<rparr>)
      | PWrite \<Rightarrow>
          (case buffer q of
             None \<Rightarrow> Inl NullDeref
           | Some b \<Rightarrow>
               if p_tail p < length b
               then Inr (q\<lparr>buffer :=
                            Some (b[p_tail p :=
                                      producer_item (p_thread_id p) (p_num_items p) (p_i p)])\<rparr>,
                         p\<lparr>p_pc := PStore\<rparr>)
               else Inl OutOfBounds)
      | PStore \<Rightarrow>
          Inr (q\<lparr>tail := p_next_tail p\<rparr>, p\<lparr>p_i := p_i p + 1, p_pc := PLoadTail\<rparr>)
      | PReturned \<Rightarrow> Inr (q, p))"

definition consumer_step ::
  "lockfree_queue_t \<times> c_int \<Rightarrow> consumer \<Rightarrow> fault + ((lockfree_queue_t \<times> c_int) \<times> consumer)" where
  "consumer_step s c =
     (case s of (q, tot) \<Rightarrow>
        (case c_pc c of
           CLoadHead \<Rightarrow>
             if int (c_i c) < c_num_items c
             then Inr ((q, tot), c\<lparr>c_head := head q, c_pc := CLoadTail\<rparr>)
             else Inr ((q, tot), c\<lparr>c_pc := CReturned\<rparr>)
         | CLoadTail \<Rightarrow>
             if c_head c = tail q
             then Inr ((q, tot), c\<lparr>c_pc := CLoadHead\<rparr>)
             else Inr ((q, tot), c\<lparr>c_pc := CRead\<rparr>)
         | CRead \<Rightarrow>
             (case buffer q of
                None \<Rightarrow> Inl NullDeref
              | Some b \<Rightarrow>
                  if c_head c < length b
                  then Inr ((q, tot), c\<lparr>c_item := b ! c_head c, c_pc := CStore\<rparr>)
                  else Inl OutOfBounds)
         | CStore \<Rightarrow>
             if size_q q = 0 then Inl DivByZero
             else Inr ((q\<lparr>head := (c_head c + 1) mod size_q q\<rparr>, tot),
                       c\<lparr>c_received := c_received c @ [c_item c], c_pc := CAdd\<rparr>)
         | CAdd \<Rightarrow>
             Inr ((q, tot + c_item c), c\<lparr>c_i := c_i c + 1, c_pc := CLoadHead\<rparr>)
         | CReturned \<Rightarrow> Inr ((q, tot), c)))"

datatype thread = Producer producer | Consumer consumer

fun thread_step ::
  "lockfree_queue_t \<times> c_int \<Rightarrow> thread \<Rightarrow> fault + ((lockfree_queue_t \<times> c_int) \<times> thread)" where
  "thread_step (q, tot) (Producer p) =
     (case producer_step q p of Inl f \<Rightarrow> Inl f | Inr (q', p') \<Rightarrow> Inr ((q', tot), Producer p'))"
| "thread_step (q, tot) (Consumer c) =
     (case consumer_step (q, tot) c of Inl f \<Rightarrow> Inl f | Inr (s', c') \<Rightarrow> Inr (s', Consumer c'))"

fun thread_returned :: "thread \<Rightarrow> bool" where
  "thread_returned (Producer p) = (p_pc p = PReturned)"
| "thread_returned (Consumer c) = (c_pc c = CReturned)"

text \<open>
  A schedule is the list of the threads' indices in the order in which they take
  their steps. An index outside the thread array takes no step.
\<close>

fun run_threads ::
  "(lockfree_queue_t \<times> c_int) \<times> thread list \<Rightarrow> nat list \<Rightarrow>
   fault + ((lockfree_queue_t \<times> c_int) \<times> thread list)" where
  "run_threads st [] = Inr st"
| "run_threads (s, ths) (k # sched) =
     (if k < length ths
      then
        (case thread_step s (ths ! k) of
           Inl f \<Rightarrow> Inl f
         | Inr (s', th') \<Rightarrow> run_threads (s', ths[k := th']) sched)
      else run_threads (s, ths) sched)"

text \<open>The locals of a thread when \<^verbatim>\<open>pthread_create\<close> starts it.\<close>

definition producer_init :: "nat \<Rightarrow> nat \<Rightarrow> producer" where
  "producer_init tid n =
     \<lparr>p_thread_id = tid, p_num_items = n, p_i = 0, p_pc = PLoadTail, p_tail = 0,
      p_next_tail = 0\<rparr>"

text \<open>
  \<^verbatim>\<open>int item;\<close> of the consumer is not initialised: its first content is the
  parameter \<open>junk\<close>.
\<close>

definition consumer_init :: "nat \<Rightarrow> int \<Rightarrow> c_int \<Rightarrow> consumer" where
  "consumer_init tid n junk =
     \<lparr>c_thread_id = tid, c_num_items = n, c_i = 0, c_pc = CLoadHead, c_head = 0,
      c_item = junk, c_received = []\<rparr>"

text \<open>One producer and one consumer that each move \<open>n\<close> items.\<close>

definition spsc_threads :: "nat \<Rightarrow> nat \<Rightarrow> c_int \<Rightarrow> thread list" where
  "spsc_threads tid n junk =
     [Producer (producer_init tid n), Consumer (consumer_init 0 (int n) junk)]"

text \<open>What the calls of \<^verbatim>\<open>queue_dequeue\<close> have delivered to the consumers of a run.\<close>

fun delivered :: "thread list \<Rightarrow> c_int list" where
  "delivered [] = []"
| "delivered (Producer p # ths) = delivered ths"
| "delivered (Consumer c # ths) = c_received c @ delivered ths"

subsection \<open>What main prints\<close>

text \<open>
  A call of \<^verbatim>\<open>printf\<close> is its format string and its arguments; \<^verbatim>\<open>perror\<close> its
  prefix. \<^verbatim>\<open>double\<close> values (times and throughputs) are idealised as reals; no
  statement below depends on their value.
\<close>

datatype printf_arg = ArgInt c_int | ArgStr string | ArgDouble real

datatype out_event = Printf string "printf_arg list" | Perror string

fun format_of :: "out_event \<Rightarrow> string" where
  "format_of (Printf f args) = f"
| "format_of (Perror f) = f"

text \<open>
  How a run of \<^verbatim>\<open>main\<close> ends: it returns a status, it runs into undefined
  behaviour, under the given finite schedule \<^verbatim>\<open>pthread_join\<close> is still waiting
  for a thread that has not returned, or a thread has entered code to which the source
  gives no meaning (\<open>NoMeaning\<close>, the inline-assembly loop of the counter
  benchmark).
\<close>

datatype outcome = Exit int | Crash fault | Waiting | NoMeaning

text \<open>
  What \<^verbatim>\<open>main\<close> cannot choose: the two preprocessor symbols, the result of
  \<^verbatim>\<open>malloc\<close>, the content of the consumers' uninitialised \<^verbatim>\<open>item\<close> and the two
  readings of the clock.
\<close>

record queue_env =
  qe_aarch64 :: bool
  qe_feature_atomics :: bool
  qe_malloc :: "c_int list option"
  qe_junk :: c_int
  qe_start :: real
  qe_end :: real

definition banner :: "bool \<Rightarrow> bool \<Rightarrow> out_event list" where
  "banner aarch64 feature_atomics =
     [Printf ''CPU Architecture: %s\<newline>'' [ArgStr (if aarch64 then ''aarch64'' else ''other'')],
      Printf (if feature_atomics then ''LSE Atomics: Supported by compiler\<newline>''
              else ''LSE Atomics: Not supported by compiler\<newline>'') []]"

text \<open>
  The lines \<^verbatim>\<open>main\<close> prints after the joins (lines 181 to 193): the observed
  total, then the expected total.
\<close>

definition queue_report :: "nat \<Rightarrow> nat \<Rightarrow> real \<Rightarrow> c_int \<Rightarrow> out_event list" where
  "queue_report P M elapsed tot =
     [Printf ''Total time: %.6f seconds\<newline>'' [ArgDouble elapsed],
      Printf ''Operations per second: %.2f million\<newline>''
        [ArgDouble (real_of_int (sint (of_nat M * of_nat P * 2 :: c_int)) / elapsed / 1000000)],
      Printf ''Final total: %d\<newline>'' [ArgInt tot],
      Printf ''Expected total: %d\<newline>'' [ArgInt (expected_total P M)]]"

text \<open>
  \<^verbatim>\<open>int items_per_consumer = (ITEMS_PER_PRODUCER * NUM_PRODUCERS) / NUM_CONSUMERS;\<close>
  (line 139), with the macros as parameters: \<open>P\<close> for \<^verbatim>\<open>NUM_PRODUCERS\<close>,
  \<open>Q\<close> for \<^verbatim>\<open>NUM_CONSUMERS\<close>, \<open>M\<close> for \<^verbatim>\<open>ITEMS_PER_PRODUCER\<close>.
  The macros are \<^verbatim>\<open>int\<close> constants, so the product is a 32-bit product (signed
  overflow is undefined in C; the model lets it wrap) and the division is C's division
  of \<^verbatim>\<open>int\<close>s, which truncates towards zero. The divisor 0 is undefined
  behaviour: \<open>queue_main_gen\<close> below tests for it before it uses this value.
  The parameters stand for non-negative \<^verbatim>\<open>int\<close> constants, so they are below
  \<open>2 ^ 31\<close>.
\<close>

definition items_per_consumer :: "nat \<Rightarrow> nat \<Rightarrow> nat \<Rightarrow> c_int" where
  "items_per_consumer P Q M =
     of_int (sint (of_nat M * of_nat P :: c_int) sdiv sint (of_nat Q :: c_int))"

text \<open>
  The threads \<^verbatim>\<open>main\<close> creates (lines 148 to 166). The consumers are created
  first, so they are the threads \<open>0..<Q\<close> and the producers the threads
  \<open>Q..<Q+P\<close>. Every consumer gets \<^verbatim>\<open>items_per_consumer\<close>, every producer
  \<^verbatim>\<open>ITEMS_PER_PRODUCER\<close>.
\<close>

definition queue_threads :: "nat \<Rightarrow> nat \<Rightarrow> nat \<Rightarrow> c_int \<Rightarrow> thread list" where
  "queue_threads P Q M junk =
     map (\<lambda>i. Consumer (consumer_init i (sint (items_per_consumer P Q M)) junk)) [0..<Q] @
     map (\<lambda>i. Producer (producer_init i M)) [0..<P]"

text \<open>What \<^verbatim>\<open>main\<close> prints before it creates the threads (lines 110 to 144).\<close>

definition queue_prologue :: "nat \<Rightarrow> nat \<Rightarrow> nat \<Rightarrow> queue_env \<Rightarrow> out_event list" where
  "queue_prologue P Q M env =
     banner (qe_aarch64 env) (qe_feature_atomics env) @
     [Printf ''\<newline>Benchmarking lock-free queue with %d producers and %d consumers...\<newline>''
        [ArgInt (of_nat P), ArgInt (of_nat Q)],
      Printf ''Each producer will enqueue %d items\<newline>'' [ArgInt (of_nat M)],
      Printf ''Each consumer will dequeue %d items\<newline>''
        [ArgInt (items_per_consumer P Q M)]]"

text \<open>
  \<^verbatim>\<open>main\<close> of the queue benchmark, with the four macros as parameters
  (\<open>C\<close> for \<^verbatim>\<open>QUEUE_SIZE\<close>) and the schedule of the threads. The opening
  lines are printed and the queue is initialised before \<^verbatim>\<open>items_per_consumer\<close>
  is computed, so a division by zero happens after the opening lines.
\<close>

definition queue_main_gen ::
  "nat \<Rightarrow> nat \<Rightarrow> nat \<Rightarrow> nat \<Rightarrow> queue_env \<Rightarrow> nat list \<Rightarrow> out_event list \<times> outcome" where
  "queue_main_gen C P Q M env sched =
     (if (of_nat Q :: c_int) = 0
      then (banner (qe_aarch64 env) (qe_feature_atomics env), Crash DivByZero)
      else
        (case run_threads ((queue_init (qe_malloc env) C, 0), queue_threads P Q M (qe_junk env))
                sched of
           Inl f \<Rightarrow> (queue_prologue P Q M env, Crash f)
         | Inr ((queue', tot), ths) \<Rightarrow>
             if list_all thread_returned ths
             then (queue_prologue P Q M env @ queue_report P M (qe_end env - qe_start env) tot,
                   Exit 0)
             else (queue_prologue P Q M env, Waiting)))"

definition queue_main :: "queue_env \<Rightarrow> nat list \<Rightarrow> out_event list \<times> outcome" where
  "queue_main = queue_main_gen QUEUE_SIZE NUM_PRODUCERS NUM_CONSUMERS ITEMS_PER_PRODUCER"

section \<open>The atomic counter race (lse\_benchmark.c)\<close>

definition NUM_THREADS :: nat where "NUM_THREADS = 4"
definition ITERATIONS :: int where "ITERATIONS = 10000000"

text \<open>
  \<^verbatim>\<open>typedef struct { int thread_id; int num_iterations; _Atomic int *counter;
  int use_lse; } thread_arg_t;\<close>
  All workers of a scenario get the same \<^verbatim>\<open>counter\<close> pointer; the cell it points to
  is the shared counter of the model. \<open>num_iterations\<close> is the value of the C
  \<^verbatim>\<open>int\<close>, below \<open>2 ^ 31\<close>.
\<close>

record thread_arg_t =
  thread_id :: int
  num_iterations :: int
  use_lse :: int

text \<open>
  One step of \<^verbatim>\<open>atomic_increment_thread\<close>: the loop test and, when it holds, one
  \<^verbatim>\<open>atomic_fetch_add(counter, 1)\<close> with the \<^verbatim>\<open>i++\<close> that follows. The state of
  a worker is its loop index \<open>i\<close>, which stays between 0 and \<open>num_iterations\<close>.
  The atomic addition on the \<^verbatim>\<open>_Atomic int\<close> wraps.

  The other branch (\<^verbatim>\<open>use_lse == 0\<close>) is the retry loop written in inline assembly.
  Its store instruction is \<^verbatim>\<open>"stxr %w0, %w1, [%3]"\<close> with the operands
  \<^verbatim>\<open>"=&r"(store_result), "=m"(*counter) : "r"(new_val), "r"(counter)\<close>: operand 1
  is the memory operand, \<^verbatim>\<open>new_val\<close> is operand 2 and is named nowhere in the
  template, and the loop condition \<^verbatim>\<open>while (store_result != 0)\<close> reads a variable
  that is declared inside the loop body. The source does not determine which value
  that loop stores, so the model gives the branch no meaning: \<open>None\<close>.
\<close>

definition atomic_increment_thread_step ::
  "thread_arg_t \<Rightarrow> c_int \<times> int \<Rightarrow> (c_int \<times> int) option" where
  "atomic_increment_thread_step a s =
     (case s of (counter, i) \<Rightarrow>
        if use_lse a \<noteq> 0
        then Some (if i < num_iterations a then (counter + 1, i + 1) else (counter, i))
        else None)"

definition worker_returned :: "thread_arg_t \<Rightarrow> int \<Rightarrow> bool" where
  "worker_returned a i = (\<not> i < num_iterations a)"

text \<open>
  The workers under a schedule: the shared counter and the loop index of every
  worker. An index outside the thread array takes no step.
\<close>

fun run_workers ::
  "thread_arg_t list \<Rightarrow> nat list \<Rightarrow> c_int \<times> int list \<Rightarrow> (c_int \<times> int list) option" where
  "run_workers args [] s = Some s"
| "run_workers args (k # sched) (counter, idx) =
     (if k < length args \<and> k < length idx
      then
        (case atomic_increment_thread_step (args ! k) (counter, idx ! k) of
           None \<Rightarrow> None
         | Some (counter', i') \<Rightarrow> run_workers args sched (counter', idx[k := i']))
      else run_workers args sched (counter, idx))"

text \<open>
  The arguments \<^verbatim>\<open>main\<close> builds for \<open>T\<close> workers with \<open>I\<close> iterations each,
  and the state in which it starts them: the counter is 0.
\<close>

definition worker_args :: "nat \<Rightarrow> int \<Rightarrow> int \<Rightarrow> thread_arg_t list" where
  "worker_args T I lse =
     map (\<lambda>i. \<lparr>thread_id = int i, num_iterations = I, use_lse = lse\<rparr>) [0..<T]"

definition race_init :: "nat \<Rightarrow> c_int \<times> int list" where
  "race_init T = (0, replicate T 0)"

definition all_returned :: "thread_arg_t list \<Rightarrow> int list \<Rightarrow> bool" where
  "all_returned args idx = list_all2 worker_returned args idx"

text \<open>The schedule that runs the workers one after the other, \<open>n\<close> steps each.\<close>

definition one_by_one :: "nat \<Rightarrow> nat \<Rightarrow> nat list" where
  "one_by_one T n = concat (map (\<lambda>k. replicate n k) [0..<T])"

text \<open>
  \<^verbatim>\<open>main\<close> of the counter benchmark. What it cannot choose: the two
  preprocessor symbols, the results of the two calls of \<^verbatim>\<open>malloc\<close> (\<open>None\<close>
  for \<^verbatim>\<open>NULL\<close>) and the two measured times.
\<close>

record lse_env =
  le_aarch64 :: bool
  le_feature_atomics :: bool
  le_malloc_ldstex :: "c_int option"
  le_malloc_lse :: "c_int option"
  le_ldstex_time :: real
  le_lse_time :: real

text \<open>
  \<^verbatim>\<open>main\<close> runs the two scenarios one after the other, each with its own
  threads: the argument is the pair of their schedules. The LD/ST-EX scenario comes
  first (lines 100 to 122) and its workers have \<^verbatim>\<open>use_lse = 0\<close>: as soon as one of
  them takes a step the run has no meaning. The LSE scenario (lines 124 to 147) is
  reached only after all workers of the first one have returned.
\<close>

definition lse_main :: "lse_env \<Rightarrow> nat list \<times> nat list \<Rightarrow> out_event list \<times> outcome" where
  "lse_main env scheds =
     (let out = banner (le_aarch64 env) (le_feature_atomics env) in
      if le_malloc_ldstex env = None \<or> le_malloc_lse env = None
      then (out @ [Perror ''malloc''], Exit 1)
      else
        (let out_ldstex =
               out @ [Printf ''\<newline>Benchmarking LD/ST-EX atomic operations...\<newline>'' []];
             args_ldstex = worker_args NUM_THREADS (ITERATIONS div int NUM_THREADS) 0
         in
           (case run_workers args_ldstex (fst scheds) (race_init NUM_THREADS) of
              None \<Rightarrow> (out_ldstex, NoMeaning)
            | Some (counter_ldstex, idx_ldstex) \<Rightarrow>
                if \<not> all_returned args_ldstex idx_ldstex then (out_ldstex, Waiting)
                else
                  (let out_lse =
                         out_ldstex @
                         [Printf ''LD/ST-EX time: %.6f seconds\<newline>''
                            [ArgDouble (le_ldstex_time env)],
                          Printf ''LD/ST-EX operations per second: %.2f million\<newline>''
                            [ArgDouble (real_of_int ITERATIONS / le_ldstex_time env / 1000000)],
                          Printf ''Final counter value: %d\<newline>'' [ArgInt counter_ldstex],
                          Printf ''\<newline>Benchmarking LSE atomic operations...\<newline>'' []];
                       args_lse = worker_args NUM_THREADS (ITERATIONS div int NUM_THREADS) 1
                   in
                     (case run_workers args_lse (snd scheds) (race_init NUM_THREADS) of
                        None \<Rightarrow> (out_lse, NoMeaning)
                      | Some (counter_lse, idx_lse) \<Rightarrow>
                          if all_returned args_lse idx_lse
                          then
                            (out_lse @
                             [Printf ''LSE time: %.6f seconds\<newline>''
                                [ArgDouble (le_lse_time env)],
                              Printf ''LSE operations per second: %.2f million\<newline>''
                                [ArgDouble (real_of_int ITERATIONS / le_lse_time env / 1000000)],
                              Printf ''Final counter value: %d\<newline>'' [ArgInt counter_lse],
                              Printf ''\<newline>LSE speedup: %.2fx\<newline>''
                                [ArgDouble (le_ldstex_time env / le_lse_time env)]],
                             Exit 0)
                          else (out_lse, Waiting))))))"

section \<open>Definitions used in the proofs\<close>

text \<open>The closed form of the sum of all produced values.\<close>

definition gauss :: "nat \<Rightarrow> nat \<Rightarrow> nat" where
  "gauss P M = P * M * (P * M + 1) div 2"


text \<open>
  The invariant of one producer and one consumer. \<open>E\<close> counts the calls of
  \<^verbatim>\<open>queue_enqueue\<close> that have returned 1 and \<open>D\<close> the calls of
  \<^verbatim>\<open>queue_dequeue\<close> that have returned 1; \<open>it k\<close> is the \<open>k\<close>-th item of the
  producer. The indices are the counts modulo the capacity, fewer than \<open>C\<close> items
  are resident, and slot \<open>k mod C\<close> holds item \<open>k\<close> for every resident \<open>k\<close>.
\<close>

definition queue_rel :: "nat \<Rightarrow> (nat \<Rightarrow> c_int) \<Rightarrow> lockfree_queue_t \<Rightarrow> nat \<Rightarrow> nat \<Rightarrow> bool" where
  "queue_rel C it q E D =
     (0 < C \<and> size_q q = C \<and> tail q = E mod C \<and> head q = D mod C \<and> D \<le> E \<and>
      E < D + C \<and>
      (\<exists>b. buffer q = Some b \<and> length b = C \<and>
           (\<forall>k. D \<le> k \<and> k < E \<longrightarrow> b ! (k mod C) = it k)))"

definition producer_rel ::
  "nat \<Rightarrow> nat \<Rightarrow> nat \<Rightarrow> lockfree_queue_t \<Rightarrow> nat \<Rightarrow> producer \<Rightarrow> bool" where
  "producer_rel C tid n q D p =
     (p_thread_id p = tid \<and> p_num_items p = n \<and> p_i p \<le> n \<and>
      (p_pc p \<in> {PLoadHead, PWrite, PStore} \<longrightarrow>
         p_tail p = tail q \<and> p_next_tail p = (tail q + 1) mod C \<and> p_i p < n) \<and>
      (p_pc p \<in> {PWrite, PStore} \<longrightarrow> p_i p + 1 < D + C) \<and>
      (p_pc p = PStore \<longrightarrow>
         (\<exists>b. buffer q = Some b \<and> b ! (p_i p mod C) = producer_item tid n (p_i p))))"

definition deq_count :: "consumer \<Rightarrow> nat" where
  "deq_count c = (if c_pc c = CAdd then c_i c + 1 else c_i c)"

definition consumer_rel ::
  "(nat \<Rightarrow> c_int) \<Rightarrow> nat \<Rightarrow> lockfree_queue_t \<Rightarrow> c_int \<Rightarrow> nat \<Rightarrow> consumer \<Rightarrow> bool" where
  "consumer_rel it m q tot E c =
     (c_num_items c = int m \<and> c_received c = map it [0..<deq_count c] \<and>
      (c_pc c \<in> {CLoadTail, CRead, CStore} \<longrightarrow> c_head c = head q \<and> c_i c < m) \<and>
      (c_pc c \<in> {CRead, CStore} \<longrightarrow> c_i c < E) \<and>
      (c_pc c = CStore \<longrightarrow> c_item c = it (c_i c)) \<and>
      (c_pc c = CAdd \<longrightarrow> c_item c = it (c_i c)) \<and>
      (c_pc c = CReturned \<longrightarrow> m \<le> c_i c) \<and>
      tot = sum_list (map it [0..<c_i c]))"

definition spsc_inv ::
  "nat \<Rightarrow> nat \<Rightarrow> nat \<Rightarrow> lockfree_queue_t \<Rightarrow> c_int \<Rightarrow> producer \<Rightarrow> consumer \<Rightarrow> bool" where
  "spsc_inv C tid n q tot p c =
     (queue_rel C (producer_item tid n) q (p_i p) (deq_count c) \<and>
      producer_rel C tid n q (deq_count c) p \<and>
      consumer_rel (producer_item tid n) n q tot (p_i p) c)"


text \<open>
  The invariant of the counter race: the counter is the sum of the workers' loop
  indices, and no index passes the iteration count.
\<close>

definition race_inv :: "int \<Rightarrow> c_int \<times> int list \<Rightarrow> bool" where
  "race_inv I s = (case s of (counter, idx) \<Rightarrow>
     counter = of_int (sum_list idx) \<and> (\<forall>k < length idx. 0 \<le> idx ! k \<and> idx ! k \<le> I))"




text \<open>
  A small instance of the benchmark (capacity 4, two producers with one item each,
  two consumers with one item each) and two schedules of its threads. In
  \<open>double_read\<close> both consumers load \<^verbatim>\<open>head\<close> before either stores it, so
  both take the item in slot 0. In \<open>in_turn\<close> the calls do not overlap.
\<close>

definition race_env :: queue_env where
  "race_env = \<lparr>qe_aarch64 = True, qe_feature_atomics = True, qe_malloc = Some [0, 0, 0, 0],
     qe_junk = 0, qe_start = 0, qe_end = 1\<rparr>"

definition double_read :: "nat list" where
  "double_read = [2, 2, 2, 2, 0, 0, 1, 1, 0, 0, 0, 0, 1, 1, 1, 1, 2, 3, 3, 3, 3, 3]"

definition in_turn :: "nat list" where
  "in_turn = [2, 2, 2, 2, 0, 0, 0, 0, 0, 0, 3, 3, 3, 3, 3, 1, 1, 1, 1, 1, 1, 2]"

text \<open>
  In \<open>lost_update\<close> both producers load \<^verbatim>\<open>tail\<close> before either stores it, so
  both write slot 0; then the first consumer takes the one item that is left.
\<close>

definition lost_update :: "nat list" where
  "lost_update = [2, 2, 3, 3, 2, 2, 3, 3, 2, 3, 0, 0, 0, 0, 0, 0]"


text \<open>
  A thread that can make no progress on an empty queue whose producers have all
  returned: a producer that has returned, a consumer that has returned, or a consumer
  that still wants an item and is looking at the indices.
\<close>

fun starved :: "lockfree_queue_t \<Rightarrow> thread \<Rightarrow> bool" where
  "starved q (Producer p) = (p_pc p = PReturned)"
| "starved q (Consumer c) =
     (c_pc c = CReturned \<or>
      int (c_i c) < c_num_items c \<and>
      (c_pc c = CLoadHead \<or> c_pc c = CLoadTail \<and> c_head c = head q))"


text \<open>
  A thread that can make no progress when the buffer pointer is null and the indices
  are equal: a producer that still has items and has not reached its store, or a
  consumer as in \<open>starved\<close>.
\<close>

fun stuck_on_null :: "lockfree_queue_t \<Rightarrow> thread \<Rightarrow> bool" where
  "stuck_on_null q (Producer p) =
     (p_i p < p_num_items p \<and> (p_pc p = PLoadTail \<or> p_pc p = PLoadHead \<or> p_pc p = PWrite))"
| "stuck_on_null q (Consumer c) = starved q (Consumer c)"

fun is_producer :: "thread \<Rightarrow> bool" where
  "is_producer (Producer p) = True"
| "is_producer (Consumer c) = False"

text \<open>
  What a consumer has added to \<^verbatim>\<open>total\<close> so far: everything it has received, except
  the item it holds while it is about to run its \<^verbatim>\<open>atomic_fetch_add\<close>.
\<close>

fun added :: "thread \<Rightarrow> c_int" where
  "added (Producer p) = 0"
| "added (Consumer c) = sum_list (c_received c) - (if c_pc c = CAdd then c_item c else 0)"

text \<open>
  A round: thread \<open>x\<close> runs the four steps of one call of \<^verbatim>\<open>queue_enqueue\<close>, then
  thread \<open>y\<close> runs the four steps of one call of \<^verbatim>\<open>queue_dequeue\<close> and its
  \<^verbatim>\<open>atomic_fetch_add\<close>. \<open>rounds x y k\<close> is \<open>k\<close> rounds one after the other.
\<close>

definition round_of :: "nat \<Rightarrow> nat \<Rightarrow> nat list" where
  "round_of x y = [x, x, x, x, y, y, y, y, y]"

definition rounds :: "nat \<Rightarrow> nat \<Rightarrow> nat \<Rightarrow> nat list" where
  "rounds x y k = concat (replicate k (round_of x y))"

text \<open>
  The states between two rounds of producer \<open>p\<close> and consumer \<open>c\<close>: both are
  at the start of a call and the queue is empty. \<open>moved k\<close> relates the state before
  \<open>k\<close> rounds to the state after them.
\<close>

definition ready :: "lockfree_queue_t \<Rightarrow> producer \<Rightarrow> consumer \<Rightarrow> bool" where
  "ready q p c =
     (p_pc p = PLoadTail \<and> c_pc c = CLoadHead \<and> 2 \<le> size_q q \<and> head q = tail q \<and>
      tail q < size_q q \<and> (\<exists>b. buffer q = Some b \<and> length b = size_q q))"

definition moved ::
  "nat \<Rightarrow> lockfree_queue_t \<Rightarrow> producer \<Rightarrow> consumer \<Rightarrow>
   lockfree_queue_t \<Rightarrow> producer \<Rightarrow> consumer \<Rightarrow> bool" where
  "moved k q p c q' p' c' =
     (ready q' p' c' \<and> size_q q' = size_q q \<and> tail q' = (tail q + k) mod size_q q \<and>
      p_thread_id p' = p_thread_id p \<and> p_num_items p' = p_num_items p \<and>
      p_i p' = p_i p + k \<and>
      c_thread_id c' = c_thread_id c \<and> c_num_items c' = c_num_items c \<and>
      c_i c' = c_i c + k \<and>
      c_received c' =
        c_received c @ map (producer_item (p_thread_id p) (p_num_items p)) [p_i p..<p_i p + k])"

text \<open>
  Schedules of the four threads of the compiled-in configuration (threads 0 and 1 are
  the consumers, 2 and 3 the producers).

  In \<open>overtaken\<close> producer 0 loads \<^verbatim>\<open>tail\<close> and passes the full test, producer 1
  then enqueues two items and consumer 0 dequeues both, and only then producer 0 writes
  its item and stores its stale \<^verbatim>\<open>tail\<close>.

  In \<open>double_read_compiled\<close> producer 0 enqueues its first item and both consumers
  load \<^verbatim>\<open>head\<close> before either stores it; the rest of the run is free of
  overlapping calls: producer 0 and consumer 0 take turns, then producer 1 and
  consumer 1, then producer 1 enqueues its last item and all four threads return.

  In \<open>in_turn_compiled\<close> no two calls overlap at all.
\<close>

definition overtaken :: "nat list" where
  "overtaken = [2, 2, 3, 3, 3, 3, 3, 3, 3, 3, 0, 0, 0, 0, 0, 0, 0, 0, 0, 0, 2, 2]"

definition double_read_compiled :: "nat list" where
  "double_read_compiled =
     [2, 2, 2, 2, 0, 0, 1, 1, 0, 0, 0, 1, 1, 1] @ rounds 2 0 999999 @ rounds 3 1 999999 @
     [3, 3, 3, 3] @ [0, 1, 2, 3]"

definition in_turn_compiled :: "nat list" where
  "in_turn_compiled = rounds 2 0 1000000 @ rounds 3 1 1000000 @ [0, 1, 2, 3]"

definition compiled_env :: queue_env where
  "compiled_env = \<lparr>qe_aarch64 = True, qe_feature_atomics = True,
     qe_malloc = Some (replicate QUEUE_SIZE 0), qe_junk = 0, qe_start = 0, qe_end = 1\<rparr>"

declare expected_inner.simps [simp del] expected_outer.simps [simp del]
declare expected_inner_checked.simps [simp del] expected_outer_checked.simps [simp del]

section \<open>The queue, one call at a time\<close>

lemma queue_enqueue_wf:
  assumes "wf_queue q"
  shows "queue_enqueue q item =
    (if (tail q + 1) mod size_q q = head q then Inr (q, 0)
     else Inr (q\<lparr>buffer := Some ((the (buffer q))[tail q := item]),
                 tail := (tail q + 1) mod size_q q\<rparr>, 1))"
  using assms by (auto simp: wf_queue_def queue_enqueue_def Let_def split: option.splits)

lemma queue_dequeue_wf:
  assumes "wf_queue q"
  shows "queue_dequeue q item =
    (if head q = tail q then Inr (q, item, 0)
     else Inr (q\<lparr>head := (head q + 1) mod size_q q\<rparr>, the (buffer q) ! head q, 1))"
  using assms by (auto simp: wf_queue_def queue_dequeue_def Let_def split: option.splits)

lemma wf_queue_enqueue:
  "wf_queue q \<Longrightarrow> queue_enqueue q item = Inr (q', r) \<Longrightarrow> wf_queue q'"
  by (auto simp: queue_enqueue_wf split: if_splits) (auto simp: wf_queue_def split: option.splits)

lemma wf_queue_dequeue:
  "wf_queue q \<Longrightarrow> queue_dequeue q item = Inr (q', v, r) \<Longrightarrow> wf_queue q'"
  by (auto simp: queue_dequeue_wf split: if_splits) (auto simp: wf_queue_def split: option.splits)

lemma size_q_enqueue:
  "wf_queue q \<Longrightarrow> queue_enqueue q item = Inr (q', r) \<Longrightarrow> size_q q' = size_q q"
  by (auto simp: queue_enqueue_wf split: if_splits)

lemma size_q_dequeue:
  "wf_queue q \<Longrightarrow> queue_dequeue q item = Inr (q', v, r) \<Longrightarrow> size_q q' = size_q q"
  by (auto simp: queue_dequeue_wf split: if_splits)

lemma resident_cases:
  assumes "wf_queue q"
  shows "resident q = (if head q \<le> tail q then tail q - head q
                       else tail q + size_q q - head q)"
proof -
  have b: "head q < size_q q" "tail q < size_q q" using assms by (auto simp: wf_queue_def)
  show ?thesis
  proof (cases "head q \<le> tail q")
    case True
    then have "(int (tail q) - int (head q)) mod int (size_q q) = int (tail q) - int (head q)"
      using b by (intro mod_pos_pos_trivial) auto
    then show ?thesis using True by (simp add: resident_def)
  next
    case False
    have "(int (tail q) - int (head q)) mod int (size_q q)
        = (int (tail q) - int (head q) + int (size_q q)) mod int (size_q q)"
      by simp
    also have "\<dots> = int (tail q) - int (head q) + int (size_q q)"
      using b False by (intro mod_pos_pos_trivial) auto
    finally show ?thesis using False b by (simp add: resident_def)
  qed
qed

lemma resident_enqueue:
  assumes wf: "wf_queue q" and e: "queue_enqueue q x = Inr (q', r)"
  shows "resident q' = (if r = 1 then resident q + 1 else resident q)"
proof -
  have wf': "wf_queue q'" using wf_queue_enqueue [OF wf e] .
  have b: "head q < size_q q" "tail q < size_q q" using wf by (auto simp: wf_queue_def)
  show ?thesis
    using e b unfolding resident_cases [OF wf] resident_cases [OF wf']
    by (auto simp: queue_enqueue_wf [OF wf] mod_if split: if_splits)
qed

lemma resident_dequeue:
  assumes wf: "wf_queue q" and e: "queue_dequeue q v = Inr (q', v', r)"
  shows "resident q = (if r = 1 then resident q' + 1 else resident q')"
proof -
  have wf': "wf_queue q'" using wf_queue_dequeue [OF wf e] .
  have b: "head q < size_q q" "tail q < size_q q" using wf by (auto simp: wf_queue_def)
  show ?thesis
    using e b unfolding resident_cases [OF wf] resident_cases [OF wf']
    by (auto simp: queue_dequeue_wf [OF wf] mod_if split: if_splits)
qed

lemma run_ops_wf:
  "wf_queue q \<Longrightarrow>
   \<exists>q' e d. run_ops q ops = Inr (q', e, d) \<and> wf_queue q' \<and> size_q q' = size_q q \<and>
     resident q' + d = resident q + e"
proof (induction ops arbitrary: q)
  case Nil
  then show ?case by simp
next
  case (Cons op ops)
  show ?case
  proof (cases op)
    case (Enqueue x)
    have "\<exists>q1 r. queue_enqueue q x = Inr (q1, r)"
      using Cons.prems by (simp add: queue_enqueue_wf)
    then obtain q1 r where e: "queue_enqueue q x = Inr (q1, r)" by blast
    have wf1: "wf_queue q1" using wf_queue_enqueue [OF Cons.prems e] .
    have sz: "size_q q1 = size_q q" using size_q_enqueue [OF Cons.prems e] .
    have res: "resident q1 = (if r = 1 then resident q + 1 else resident q)"
      using resident_enqueue [OF Cons.prems e] .
    from Cons.IH [OF wf1] obtain q' e' d' where
      r: "run_ops q1 ops = Inr (q', e', d')" "wf_queue q'" "size_q q' = size_q q1"
         "resident q' + d' = resident q1 + e'" by blast
    show ?thesis using e r sz res Enqueue by auto
  next
    case (Dequeue v)
    have "\<exists>q1 v' r. queue_dequeue q v = Inr (q1, v', r)"
      using Cons.prems by (simp add: queue_dequeue_wf)
    then obtain q1 v' r where e: "queue_dequeue q v = Inr (q1, v', r)" by blast
    have wf1: "wf_queue q1" using wf_queue_dequeue [OF Cons.prems e] .
    have sz: "size_q q1 = size_q q" using size_q_dequeue [OF Cons.prems e] .
    have res: "resident q = (if r = 1 then resident q1 + 1 else resident q1)"
      using resident_dequeue [OF Cons.prems e] .
    from Cons.IH [OF wf1] obtain q' e' d' where
      r: "run_ops q1 ops = Inr (q', e', d')" "wf_queue q'" "size_q q' = size_q q1"
         "resident q' + d' = resident q1 + e'" by blast
    show ?thesis using e r sz res Dequeue by auto
  qed
qed

lemma resident_init: "resident (queue_init m C) = 0"
  by (simp add: resident_def queue_init_def)

lemma resident_less: "wf_queue q \<Longrightarrow> resident q \<le> size_q q - 1"
proof -
  assume "wf_queue q"
  then have "0 < int (size_q q)" by (simp add: wf_queue_def)
  then have "(int (tail q) - int (head q)) mod int (size_q q) < int (size_q q)"
    by (rule pos_mod_bound)
  then show ?thesis by (simp add: resident_def)
qed

lemma wf_queue_init:
  "0 < C \<Longrightarrow> C < 2 ^ 31 \<Longrightarrow> length cells = C \<Longrightarrow> wf_queue (queue_init (Some cells) C)"
  by (simp add: wf_queue_def queue_init_def)

lemma next_enqueue_succeeds:
  assumes wf: "wf_queue q"
    and full: "queue_enqueue q x = Inr (q, 0)"
    and deq: "queue_dequeue q v = Inr (q', v', 1)"
  shows "\<exists>q''. queue_enqueue q' y = Inr (q'', 1)"
proof -
  let ?C = "size_q q"
  have f: "(tail q + 1) mod ?C = head q"
    using full wf by (auto simp: queue_enqueue_wf split: if_splits)
  have ne: "head q \<noteq> tail q" and q': "q' = q\<lparr>head := (head q + 1) mod ?C\<rparr>"
    using deq wf by (auto simp: queue_dequeue_wf split: if_splits)
  have b: "head q < ?C" "tail q < ?C" using wf by (auto simp: wf_queue_def)
  have wf': "wf_queue q'" using wf_queue_dequeue [OF wf deq] .
  have "(tail q + 1) mod ?C \<noteq> (head q + 1) mod ?C"
  proof
    assume e: "(tail q + 1) mod ?C = (head q + 1) mod ?C"
    show False
    proof (cases "tail q + 1 = ?C")
      case True
      then have "head q = 0" using f by simp
      then show ?thesis using e True b ne by (auto simp: mod_if split: if_splits)
    next
      case False
      then show ?thesis using e b ne by (auto simp: mod_if split: if_splits)
    qed
  qed
  then show ?thesis using wf' q' by (auto simp: queue_enqueue_wf)
qed



section \<open>The expected total\<close>

lemma row_sum: "2 * (\<Sum>k = 0..<M. a + k + 1) = 2 * a * M + M * (M + (1::nat))"
  by (induction M) (simp_all add: algebra_simps)

lemma all_sum: "2 * (\<Sum>p = 0..<P. \<Sum>k = 0..<M. p * M + k + 1) = P * M * (P * M + (1::nat))"
proof (induction P)
  case 0
  then show ?case by simp
next
  case (Suc P)
  have "2 * (\<Sum>p = 0..<Suc P. \<Sum>k = 0..<M. p * M + k + 1)
      = 2 * (\<Sum>p = 0..<P. \<Sum>k = 0..<M. p * M + k + 1) + 2 * (\<Sum>k = 0..<M. P * M + k + 1)"
    by simp
  also have "\<dots> = P * M * (P * M + 1) + (2 * (P * M) * M + M * (M + 1))"
    using Suc.IH row_sum [where M = M and a = "P * M"] by simp
  also have "\<dots> = Suc P * M * (Suc P * M + 1)"
    by (simp add: algebra_simps)
  finally show ?case .
qed

lemma all_sum_gauss: "(\<Sum>p = 0..<P. \<Sum>k = 0..<M. p * M + k + 1) = gauss P M"
  using all_sum [where P = P and M = M] unfolding gauss_def by presburger

lemma expected_inner_eq:
  "expected_inner M i j acc = acc + of_nat (\<Sum>k = j..<M. i * M + k + 1)"
proof (induction M i j acc rule: expected_inner.induct)
  case (1 M i j acc)
  show ?case
  proof (cases "j < M")
    case True
    then show ?thesis
      using "1.IH" by (subst expected_inner.simps) (simp add: sum.atLeast_Suc_lessThan)
  next
    case False
    then show ?thesis by (subst expected_inner.simps) simp
  qed
qed

lemma expected_outer_eq:
  "expected_outer P M i acc = acc + of_nat (\<Sum>p = i..<P. \<Sum>k = 0..<M. p * M + k + 1)"
proof (induction P M i acc rule: expected_outer.induct)
  case (1 P M i acc)
  show ?case
  proof (cases "i < P")
    case True
    then show ?thesis
      using "1.IH"
      by (subst expected_outer.simps) (simp add: expected_inner_eq sum.atLeast_Suc_lessThan)
  next
    case False
    then show ?thesis by (subst expected_outer.simps) simp
  qed
qed

lemma expected_total_eq: "expected_total P M = of_nat (gauss P M)"
  by (simp only: expected_total_def expected_outer_eq all_sum_gauss add_0)

lemma consumer_total_eq: "consumer_total t xs = t + sum_list xs"
  by (induction xs arbitrary: t) (simp_all add: add.assoc)

lemma sum_list_row:
  "sum_list (map (producer_item p M) [0..<n]) = (of_nat (\<Sum>k = 0..<n. p * M + k + 1) :: c_int)"
  by (induction n) (simp_all add: producer_item_def)

lemma sum_list_produced_aux:
  "sum_list (concat (map (\<lambda>p. map (producer_item p M) [0..<M]) [0..<P]))
     = (of_nat (\<Sum>p = 0..<P. \<Sum>k = 0..<M. p * M + k + 1) :: c_int)"
  by (induction P) (simp_all add: sum_list_row)

lemma sum_list_produced: "sum_list (produced P M) = of_nat (gauss P M)"
  by (simp only: produced_def sum_list_produced_aux all_sum_gauss)

lemma consumer_total_perm:
  assumes "mset received = mset (produced P M)"
  shows "consumer_total 0 received = of_nat (gauss P M)"
proof -
  have "sum_list received = sum_mset (mset received)" by (simp add: sum_mset_sum_list)
  also have "\<dots> = sum_list (produced P M)" using assms by (simp add: sum_mset_sum_list)
  finally show ?thesis by (simp add: consumer_total_eq sum_list_produced)
qed

lemma sint_of_nat_iff: "sint (of_nat n :: c_int) = int n \<longleftrightarrow> n < 2 ^ 31"
proof
  assume "sint (of_nat n :: c_int) = int n"
  moreover have "sint (of_nat n :: c_int) < 2 ^ 31" using sint_lt [of "of_nat n :: c_int"] by simp
  ultimately show "n < 2 ^ 31" by simp
next
  assume "n < 2 ^ 31"
  then show "sint (of_nat n :: c_int) = int n"
    by (simp add: signed_of_nat signed_take_bit_int_eq_self_iff)
qed

lemma addend_checked_eq:
  "addend_checked M i j =
     (if int (i * M + j + 1) < 2 ^ 31 then Some (int (i * M + j + 1)) else None)"
proof (cases "int (i * M + j + 1) < 2 ^ 31")
  case True
  then have "int i * int M < 2 ^ 31" "int i * int M + int j < 2 ^ 31" 
    "int i * int M + int j + 1 < 2 ^ 31" by simp_all
  moreover have "- (2 ^ 31) \<le> int i * int M" "- (2 ^ 31) \<le> int i * int M + int j"
    "- (2 ^ 31) \<le> int i * int M + int j + 1"
  proof -
    have z: "- (2 ^ 31) \<le> (0::int)" by simp
    have n: "(0::int) \<le> int (i * M)" "(0::int) \<le> int (i * M + j)"
      "(0::int) \<le> int (i * M + j + 1)"
      by (rule of_nat_0_le_iff)+
    show "- (2 ^ 31) \<le> int i * int M"
      using order_trans [OF z n(1)] by simp
    show "- (2 ^ 31) \<le> int i * int M + int j"
      using order_trans [OF z n(2)] by simp
    show "- (2 ^ 31) \<le> int i * int M + int j + 1"
      using order_trans [OF z n(3)] by simp
  qed
  ultimately show ?thesis using True
    by (simp add: addend_checked_def in_int_def)
next
  case False
  then show ?thesis
    by (auto simp: addend_checked_def in_int_def split: option.splits)
qed

lemma expected_inner_checked_eq:
  "0 \<le> acc \<Longrightarrow> acc < 2 ^ 31 \<Longrightarrow>
   expected_inner_checked M i j acc =
     (if acc + int (\<Sum>k = j..<M. i * M + k + 1) < 2 ^ 31
      then Some (acc + int (\<Sum>k = j..<M. i * M + k + 1)) else None)"
proof (induction M i j acc rule: expected_inner_checked.induct)
  case (1 M i j acc)
  show ?case
  proof (cases "j < M")
    case False
    then show ?thesis using "1.prems" by (subst expected_inner_checked.simps) simp
  next
    case True
    let ?a = "int (i * M + j + 1)"
    let ?rest = "int (\<Sum>k = Suc j..<M. i * M + k + 1)"
    have split: "int (\<Sum>k = j..<M. i * M + k + 1) = ?a + ?rest"
      using True by (simp add: sum.atLeast_Suc_lessThan)
    have rest0: "0 \<le> ?rest" by (rule of_nat_0_le_iff)
    show ?thesis
    proof (cases "acc + ?a < 2 ^ 31")
      case False
      then have "\<not> acc + (?a + ?rest) < 2 ^ 31" using rest0 by linarith
      moreover have "addend_checked M i j = None \<or> addend_checked M i j = Some ?a"
        by (simp add: addend_checked_eq)
      moreover have "in_int (acc + ?a) = None" using False by (simp add: in_int_def)
      ultimately show ?thesis using True unfolding split
        by (subst expected_inner_checked.simps) auto
    next
      case lt: True
      then have a: "addend_checked M i j = Some ?a"
        using "1.prems" by (simp add: addend_checked_eq)
      have acc': "in_int (acc + ?a) = Some (acc + ?a)"
        using lt "1.prems" by (simp add: in_int_def)
      have "expected_inner_checked M i (j + 1) (acc + ?a) =
        (if acc + ?a + int (\<Sum>k = j + 1..<M. i * M + k + 1) < 2 ^ 31
         then Some (acc + ?a + int (\<Sum>k = j + 1..<M. i * M + k + 1)) else None)"
        using "1.IH" [OF True a acc'] lt "1.prems" by simp
      then show ?thesis using True a acc' unfolding split
        by (subst expected_inner_checked.simps) (simp add: add.assoc)
    qed
  qed
qed


lemma expected_outer_checked_eq:
  "0 \<le> acc \<Longrightarrow> acc < 2 ^ 31 \<Longrightarrow>
   expected_outer_checked P M i acc =
     (if acc + int (\<Sum>p = i..<P. \<Sum>k = 0..<M. p * M + k + 1) < 2 ^ 31
      then Some (acc + int (\<Sum>p = i..<P. \<Sum>k = 0..<M. p * M + k + 1)) else None)"
proof (induction P M i acc rule: expected_outer_checked.induct)
  case (1 P M i acc)
  show ?case
  proof (cases "i < P")
    case False
    then show ?thesis using "1.prems" by (subst expected_outer_checked.simps) simp
  next
    case True
    let ?row = "int (\<Sum>k = 0..<M. i * M + k + 1)"
    let ?rest = "int (\<Sum>p = Suc i..<P. \<Sum>k = 0..<M. p * M + k + 1)"
    have split: "int (\<Sum>p = i..<P. \<Sum>k = 0..<M. p * M + k + 1) = ?row + ?rest"
      using True by (simp add: sum.atLeast_Suc_lessThan)
    have rest0: "0 \<le> ?rest" "0 \<le> ?row" by (rule of_nat_0_le_iff)+
    have inner: "expected_inner_checked M i 0 acc =
      (if acc + ?row < 2 ^ 31 then Some (acc + ?row) else None)"
      using expected_inner_checked_eq [OF "1.prems", of M i 0] by simp
    show ?thesis
    proof (cases "acc + ?row < 2 ^ 31")
      case False
      then have "\<not> acc + (?row + ?rest) < 2 ^ 31" using rest0 by linarith
      then show ?thesis using True False inner unfolding split
        by (subst expected_outer_checked.simps) simp
    next
      case lt: True
      then have i: "expected_inner_checked M i 0 acc = Some (acc + ?row)"
        using inner by simp
      have "expected_outer_checked P M (i + 1) (acc + ?row) =
        (if acc + ?row + int (\<Sum>p = i + 1..<P. \<Sum>k = 0..<M. p * M + k + 1) < 2 ^ 31
         then Some (acc + ?row + int (\<Sum>p = i + 1..<P. \<Sum>k = 0..<M. p * M + k + 1))
         else None)"
      proof (rule "1.IH" [OF True i])
        show "0 \<le> acc + ?row" using "1.prems" rest0 by linarith
        show "acc + ?row < 2 ^ 31" using lt .
      qed
      then show ?thesis using True i unfolding split
        by (subst expected_outer_checked.simps) (simp add: add.assoc)
    qed
  qed
qed

lemma expected_total_checked_eq:
  "expected_total_checked P M =
     (if gauss P M < 2 ^ 31 then Some (int (gauss P M)) else None)"
proof -
  have "expected_total_checked P M =
     (if 0 + int (\<Sum>p = 0..<P. \<Sum>k = 0..<M. p * M + k + 1) < 2 ^ 31
      then Some (0 + int (\<Sum>p = 0..<P. \<Sum>k = 0..<M. p * M + k + 1)) else None)"
    unfolding expected_total_checked_def by (rule expected_outer_checked_eq) simp_all
  then show ?thesis
    unfolding all_sum_gauss by simp
qed

section \<open>One producer and one consumer\<close>

lemma slot_distinct:
  assumes "D \<le> k" "k < E" "E < D + C"
  shows "k mod C \<noteq> E mod (C::nat)"
proof
  assume "k mod C = E mod C"
  then have "E mod C = k mod C" by simp
  then have "C dvd E - k" using assms(2) by (simp add: mod_eq_dvd_iff_nat)
  moreover have "0 < E - k" "E - k < C" using assms by auto
  ultimately show False using nat_dvd_not_less by blast
qed

lemma not_full_room:
  assumes "D \<le> E" "E < D + C" "(E + 1) mod C \<noteq> D mod (C::nat)"
  shows "E + 1 < D + C"
proof (rule ccontr)
  assume "\<not> E + 1 < D + C"
  then have "E + 1 = D + C" using assms by simp
  then have "(E + 1) mod C = D mod C" by simp
  then show False using assms by simp
qed

lemma not_empty_less:
  assumes "D \<le> E" "D mod C \<noteq> E mod (C::nat)"
  shows "D < E"
  using assms by (cases "D = E") auto


lemma consumer_rel_frame:
  assumes "consumer_rel it m q tot E c" "head q' = head q" "E \<le> E'"
  shows "consumer_rel it m q' tot E' c"
  using assms unfolding consumer_rel_def by (cases "c_pc c") auto

lemma producer_rel_frame:
  assumes "producer_rel C tid n q D p" "tail q' = tail q" "buffer q' = buffer q" "D \<le> D'"
  shows "producer_rel C tid n q' D' p"
  using assms unfolding producer_rel_def by (cases "p_pc p") auto

lemma producer_step_inv:
  assumes "spsc_inv C tid n q tot p c"
  shows "\<exists>q' p'. producer_step q p = Inr (q', p') \<and> spsc_inv C tid n q' tot p' c"
proof -
  let ?it = "producer_item tid n"
  let ?E = "p_i p" and ?D = "deq_count c"
  from assms have Q: "queue_rel C ?it q ?E ?D" and P: "producer_rel C tid n q ?D p"
    and K: "consumer_rel ?it n q tot ?E c" by (simp_all add: spsc_inv_def)
  from Q obtain b where b: "buffer q = Some b" "length b = C"
    "\<forall>k. ?D \<le> k \<and> k < ?E \<longrightarrow> b ! (k mod C) = ?it k"
    and C: "0 < C" "size_q q = C" "tail q = ?E mod C" "head q = ?D mod C" "?D \<le> ?E"
      "?E < ?D + C"
    by (auto simp: queue_rel_def)
  show ?thesis
  proof (cases "p_pc p")
    case PLoadTail
    show ?thesis
    proof (cases "p_i p < p_num_items p")
      case True
      then show ?thesis using PLoadTail Q P K C
        by (simp add: producer_step_def spsc_inv_def producer_rel_def)
    next
      case False
      then show ?thesis using PLoadTail Q P K C
        by (simp add: producer_step_def spsc_inv_def producer_rel_def)
    qed
  next
    case PLoadHead
    show ?thesis
    proof (cases "p_next_tail p = head q")
      case True
      then show ?thesis using PLoadHead Q P K
        by (simp add: producer_step_def spsc_inv_def producer_rel_def)
    next
      case False
      have "p_next_tail p = (?E + 1) mod C"
        using P PLoadHead C by (simp add: producer_rel_def mod_Suc_eq)
      then have "(?E + 1) mod C \<noteq> ?D mod C" using False C by simp
      then have "?E + 1 < ?D + C" using not_full_room C by blast
      then show ?thesis using False PLoadHead Q P K
        by (simp add: producer_step_def spsc_inv_def producer_rel_def)
    qed
  next
    case PWrite
    let ?b' = "b[p_tail p := ?it ?E]"
    let ?q' = "q\<lparr>buffer := Some ?b'\<rparr>"
    have t: "p_tail p = ?E mod C" using P PWrite C by (simp add: producer_rel_def)
    then have lt: "p_tail p < length b" using b C by simp
    have keep: "\<forall>k. ?D \<le> k \<and> k < ?E \<longrightarrow> ?b' ! (k mod C) = ?it k"
    proof (intro allI impI)
      fix k assume k: "?D \<le> k \<and> k < ?E"
      then have "k mod C \<noteq> ?E mod C" using slot_distinct C by blast
      then show "?b' ! (k mod C) = ?it k" using b k t by simp
    qed
    have Q': "queue_rel C ?it ?q' ?E ?D"
      using Q b keep by (simp add: queue_rel_def)
    have P': "producer_rel C tid n ?q' ?D (p\<lparr>p_pc := PStore\<rparr>)"
      using P PWrite t lt by (simp add: producer_rel_def)
    have K': "consumer_rel ?it n ?q' tot ?E c"
      using K by (rule consumer_rel_frame) simp_all
    have "producer_step q p = Inr (?q', p\<lparr>p_pc := PStore\<rparr>)"
      using PWrite b lt P by (simp add: producer_step_def producer_rel_def)
    then show ?thesis using Q' P' K' by (simp add: spsc_inv_def)
  next
    case PStore
    let ?q' = "q\<lparr>tail := p_next_tail p\<rparr>"
    let ?p' = "p\<lparr>p_i := ?E + 1, p_pc := PLoadTail\<rparr>"
    have nt: "p_next_tail p = (?E + 1) mod C" and lt: "?E < n"
      and room: "?E + 1 < ?D + C" and w: "b ! (?E mod C) = ?it ?E"
      using P PStore C b by (simp_all add: producer_rel_def mod_Suc_eq)
    have keep: "\<forall>k. ?D \<le> k \<and> k < ?E + 1 \<longrightarrow> b ! (k mod C) = ?it k"
    proof (intro allI impI)
      fix k assume k: "?D \<le> k \<and> k < ?E + 1"
      show "b ! (k mod C) = ?it k"
      proof (cases "k = ?E")
        case True then show ?thesis using w by simp
      next
        case False then show ?thesis using b k by simp
      qed
    qed
    have Q': "queue_rel C ?it ?q' (?E + 1) ?D"
      using C b keep nt room by (simp add: queue_rel_def)
    have P': "producer_rel C tid n ?q' ?D ?p'"
      using P lt by (simp add: producer_rel_def)
    have K': "consumer_rel ?it n ?q' tot (?E + 1) c"
      using K by (rule consumer_rel_frame) simp_all
    have "producer_step q p = Inr (?q', ?p')"
      using PStore by (simp add: producer_step_def)
    then show ?thesis using Q' P' K' by (simp add: spsc_inv_def)
  next
    case PReturned
    then show ?thesis using assms by (simp add: producer_step_def)
  qed
qed

lemma consumer_step_inv:
  assumes "spsc_inv C tid n q tot p c"
  shows "\<exists>q' tot' c'. consumer_step (q, tot) c = Inr ((q', tot'), c') \<and>
           spsc_inv C tid n q' tot' p c'"
proof -
  let ?it = "producer_item tid n"
  let ?E = "p_i p" and ?D = "deq_count c"
  from assms have Q: "queue_rel C ?it q ?E ?D" and P: "producer_rel C tid n q ?D p"
    and K: "consumer_rel ?it n q tot ?E c" by (simp_all add: spsc_inv_def)
  from Q obtain b where b: "buffer q = Some b" "length b = C"
    "\<forall>k. ?D \<le> k \<and> k < ?E \<longrightarrow> b ! (k mod C) = ?it k"
    and C: "0 < C" "size_q q = C" "tail q = ?E mod C" "head q = ?D mod C" "?D \<le> ?E"
      "?E < ?D + C"
    by (auto simp: queue_rel_def)
  show ?thesis
  proof (cases "c_pc c")
    case CLoadHead
    show ?thesis
    proof (cases "int (c_i c) < c_num_items c")
      case True
      let ?c' = "c\<lparr>c_head := head q, c_pc := CLoadTail\<rparr>"
      have d: "deq_count ?c' = ?D" using CLoadHead by (simp add: deq_count_def)
      have K': "consumer_rel ?it n q tot ?E ?c'"
        using K CLoadHead True d by (simp add: consumer_rel_def)
      have "consumer_step (q, tot) c = Inr ((q, tot), ?c')"
        using CLoadHead True by (simp add: consumer_step_def)
      then show ?thesis using Q P K' d by (simp add: spsc_inv_def)
    next
      case False
      let ?c' = "c\<lparr>c_pc := CReturned\<rparr>"
      have d: "deq_count ?c' = ?D" using CLoadHead by (simp add: deq_count_def)
      have K': "consumer_rel ?it n q tot ?E ?c'"
        using K CLoadHead d False by (simp add: consumer_rel_def)
      have "consumer_step (q, tot) c = Inr ((q, tot), ?c')"
        using CLoadHead False by (simp add: consumer_step_def)
      then show ?thesis using Q P K' d by (simp add: spsc_inv_def)
    qed
  next
    case CLoadTail
    have D: "?D = c_i c" using CLoadTail by (simp add: deq_count_def)
    show ?thesis
    proof (cases "c_head c = tail q")
      case True
      let ?c' = "c\<lparr>c_pc := CLoadHead\<rparr>"
      have d: "deq_count ?c' = ?D" using CLoadTail by (simp add: deq_count_def)
      have K': "consumer_rel ?it n q tot ?E ?c'"
        using K CLoadTail d by (simp add: consumer_rel_def)
      have "consumer_step (q, tot) c = Inr ((q, tot), ?c')"
        using CLoadTail True by (simp add: consumer_step_def)
      then show ?thesis using Q P K' d by (simp add: spsc_inv_def)
    next
      case False
      let ?c' = "c\<lparr>c_pc := CRead\<rparr>"
      have d: "deq_count ?c' = ?D" using CLoadTail by (simp add: deq_count_def)
      have "c_head c = ?D mod C" using K CLoadTail C by (simp add: consumer_rel_def)
      then have "?D mod C \<noteq> ?E mod C" using False C by simp
      then have "?D < ?E" using not_empty_less C by blast
      then have K': "consumer_rel ?it n q tot ?E ?c'"
        using K CLoadTail d D by (simp add: consumer_rel_def)
      have "consumer_step (q, tot) c = Inr ((q, tot), ?c')"
        using CLoadTail False by (simp add: consumer_step_def)
      then show ?thesis using Q P K' d by (simp add: spsc_inv_def)
    qed
  next
    case CRead
    have D: "?D = c_i c" using CRead by (simp add: deq_count_def)
    have h: "c_head c = ?D mod C" and ne: "?D < ?E"
      using K CRead C D by (simp_all add: consumer_rel_def)
    then have lt: "c_head c < length b" using b C by simp
    have v: "b ! c_head c = ?it ?D" using b ne h by simp
    let ?c' = "c\<lparr>c_item := b ! c_head c, c_pc := CStore\<rparr>"
    have d: "deq_count ?c' = ?D" using CRead by (simp add: deq_count_def)
    have K': "consumer_rel ?it n q tot ?E ?c'"
      using K CRead v d D by (simp add: consumer_rel_def)
    have "consumer_step (q, tot) c = Inr ((q, tot), ?c')"
      using CRead b lt by (simp add: consumer_step_def)
    then show ?thesis using Q P K' d by (simp add: spsc_inv_def)
  next
    case CStore
    have D: "?D = c_i c" using CStore by (simp add: deq_count_def)
    have h: "c_head c = ?D mod C" and ne: "?D < ?E" and v: "c_item c = ?it ?D"
      and i: "c_i c < n" and t: "tot = sum_list (map ?it [0..<c_i c])"
      and r: "c_received c = map ?it [0..<?D]" and m: "c_num_items c = int n"
      using K CStore C D by (simp_all add: consumer_rel_def)
    let ?q' = "q\<lparr>head := (c_head c + 1) mod size_q q\<rparr>"
    let ?c' = "c\<lparr>c_received := c_received c @ [c_item c], c_pc := CAdd\<rparr>"
    have d: "deq_count ?c' = ?D + 1" using CStore by (simp add: deq_count_def)
    have hd': "(c_head c + 1) mod size_q q = (?D + 1) mod C"
      using h C by (simp add: mod_Suc_eq)
    have Q': "queue_rel C ?it ?q' ?E (?D + 1)"
      using C b ne hd' by (simp add: queue_rel_def)
    have P': "producer_rel C tid n ?q' (?D + 1) p"
      using P by (rule producer_rel_frame) simp_all
    have r': "c_received c @ [c_item c] = map ?it [0..<?D + 1]"
      using r v by simp
    have K': "consumer_rel ?it n ?q' tot ?E ?c'"
      unfolding consumer_rel_def d using r' i t v m D by simp
    have "consumer_step (q, tot) c = Inr ((?q', tot), ?c')"
      using CStore C by (simp add: consumer_step_def)
    then show ?thesis using Q' P' K' d by (simp add: spsc_inv_def)
  next
    case CAdd
    have D: "?D = c_i c + 1" using CAdd by (simp add: deq_count_def)
    let ?c' = "c\<lparr>c_i := c_i c + 1, c_pc := CLoadHead\<rparr>"
    have d: "deq_count ?c' = ?D" using CAdd by (simp add: deq_count_def)
    have K': "consumer_rel ?it n q (tot + c_item c) ?E ?c'"
      using K CAdd d D by (simp add: consumer_rel_def)
    have "consumer_step (q, tot) c = Inr ((q, tot + c_item c), ?c')"
      using CAdd by (simp add: consumer_step_def)
    then show ?thesis using Q P K' d by (simp add: spsc_inv_def)
  next
    case CReturned
    then show ?thesis using assms by (simp add: consumer_step_def)
  qed
qed

lemma run_spsc_inv:
  assumes "spsc_inv C tid n q tot p c"
  shows "\<exists>q' tot' p' c'.
           run_threads ((q, tot), [Producer p, Consumer c]) sched =
             Inr ((q', tot'), [Producer p', Consumer c']) \<and>
           spsc_inv C tid n q' tot' p' c'"
  using assms
proof (induction sched arbitrary: q tot p c)
  case Nil
  then show ?case by simp
next
  case (Cons k sched)
  consider "k = 0" | "k = 1" | "2 \<le> k" by linarith
  then show ?case
  proof cases
    case 1
    from producer_step_inv [OF Cons.prems] obtain q' p' where
      s: "producer_step q p = Inr (q', p')" "spsc_inv C tid n q' tot p' c" by blast
    from Cons.IH [OF s(2)] show ?thesis using 1 s(1) by simp
  next
    case 2
    from consumer_step_inv [OF Cons.prems] obtain q' tot' c' where
      s: "consumer_step (q, tot) c = Inr ((q', tot'), c')" "spsc_inv C tid n q' tot' p c'"
      by blast
    from Cons.IH [OF s(2)] show ?thesis using 2 s(1) by simp
  next
    case 3
    from Cons.IH [OF Cons.prems] show ?thesis using 3 by simp
  qed
qed

lemma spsc_inv_init:
  assumes "0 < C" "length cells = C"
  shows "spsc_inv C tid n (queue_init (Some cells) C) 0 (producer_init tid n)
           (consumer_init 0 (int n) junk)"
  using assms
  by (simp add: spsc_inv_def queue_rel_def producer_rel_def consumer_rel_def queue_init_def
      producer_init_def consumer_init_def deq_count_def)

lemmas step_defs = producer_step_def consumer_step_def producer_init_def consumer_init_def
  queue_init_def


lemma spsc_run:
  assumes "0 < C" "length cells = C"
  shows "\<exists>q tot p c.
           run_threads ((queue_init (Some cells) C, 0), spsc_threads tid n junk) sched =
             Inr ((q, tot), [Producer p, Consumer c]) \<and>
           spsc_inv C tid n q tot p c"
  unfolding spsc_threads_def
  using run_spsc_inv [OF spsc_inv_init [OF assms]] by blast

lemma spsc_inv_received:
  assumes "spsc_inv C tid n q tot p c"
  shows "c_received c = map (producer_item tid n) [0..<deq_count c]"
    and "deq_count c \<le> n" and "length (c_received c) = deq_count c"
    and "c_pc c = CReturned \<Longrightarrow> deq_count c = n"
    and "tot = sum_list (map (producer_item tid n) [0..<c_i c])"
proof -
  from assms have Q: "queue_rel C (producer_item tid n) q (p_i p) (deq_count c)"
    and P: "producer_rel C tid n q (deq_count c) p"
    and K: "consumer_rel (producer_item tid n) n q tot (p_i p) c" by (simp_all add: spsc_inv_def)
  show r: "c_received c = map (producer_item tid n) [0..<deq_count c]"
    using K by (simp add: consumer_rel_def)
  show le: "deq_count c \<le> n" using Q P by (simp add: queue_rel_def producer_rel_def)
  show "deq_count c = n" if "c_pc c = CReturned"
    using that K le by (simp add: consumer_rel_def deq_count_def)
  show "length (c_received c) = deq_count c" by (subst r) simp
  show "tot = sum_list (map (producer_item tid n) [0..<c_i c])"
    using K by (simp add: consumer_rel_def)
qed

lemma resident_queue_rel:
  assumes "queue_rel C it q E D"
  shows "resident q = E - D"
proof -
  from assms have C: "0 < C" "size_q q = C" "tail q = E mod C" "head q = D mod C" "D \<le> E"
    "E < D + C" by (simp_all add: queue_rel_def)
  have "(int (tail q) - int (head q)) mod int (size_q q)
      = (int (E mod C) - int (D mod C)) mod int C" using C by simp
  also have "\<dots> = (int E mod int C - int D mod int C) mod int C"
    by (simp add: zmod_int)
  also have "\<dots> = (int E - int D) mod int C" by (simp add: mod_diff_eq)
  also have "\<dots> = int E - int D"
    using C by (intro mod_pos_pos_trivial) auto
  finally show ?thesis using C by (simp add: resident_def)
qed

lemma window_slots:
  assumes "queue_rel C it q E D" "buffer q = Some b" "j < E - D"
  shows "b ! ((head q + j) mod C) = it (D + j)"
proof -
  from assms(1) obtain b' where b': "buffer q = Some b'"
    "\<forall>k. D \<le> k \<and> k < E \<longrightarrow> b' ! (k mod C) = it k"
    and C: "head q = D mod C" by (auto simp: queue_rel_def)
  have "b' = b" using b' assms(2) by simp
  moreover have "(head q + j) mod C = (D + j) mod C" using C by (simp add: mod_add_left_eq)
  moreover have "D \<le> D + j \<and> D + j < E" using assms(3) by simp
  ultimately show ?thesis using b'(2) by simp
qed

lemma producer_step_tail:
  assumes "producer_step q p = Inr (q', p')" "p_pc p \<noteq> PStore"
  shows "tail q' = tail q"
  using assms
  by (cases "p_pc p") (auto simp: producer_step_def split: if_splits option.splits)

lemma consumer_step_frame:
  assumes "consumer_step (q, tot) c = Inr ((q', tot'), c')"
  shows "tail q' = tail q \<and> buffer q' = buffer q"
  using assms
  by (cases "c_pc c") (auto simp: consumer_step_def split: if_splits option.splits)

section \<open>The counter race\<close>

lemma worker_args_nth:
  "k < T \<Longrightarrow> worker_args T I lse ! k = \<lparr>thread_id = int k, num_iterations = I, use_lse = lse\<rparr>"
  by (simp add: worker_args_def)

lemma length_worker_args: "length (worker_args T I lse) = T"
  by (simp add: worker_args_def)

lemma sum_list_update_int:
  "k < length xs \<Longrightarrow> sum_list (xs[k := v]) = sum_list xs - xs ! k + (v::int)"
proof (induction xs arbitrary: k)
  case Nil
  then show ?case by simp
next
  case (Cons x xs)
  then show ?case by (cases k) simp_all
qed

lemma worker_step_inv:
  assumes "lse \<noteq> 0" "k < T" "length idx = T" "race_inv I (counter, idx)"
  shows "\<exists>counter' i'.
           atomic_increment_thread_step (worker_args T I lse ! k) (counter, idx ! k) =
             Some (counter', i') \<and>
           race_inv I (counter', idx[k := i'])"
proof (cases "idx ! k < I")
  case True
  have "of_int (sum_list idx) + 1 = (of_int (sum_list (idx[k := idx ! k + 1])) :: c_int)"
    using assms by (simp add: sum_list_update_int)
  moreover have "\<forall>j < length idx. 0 \<le> idx[k := idx ! k + 1] ! j \<and> idx[k := idx ! k + 1] ! j \<le> I"
    using assms True by (auto simp: race_inv_def nth_list_update)
  ultimately show ?thesis using assms True
    by (simp add: atomic_increment_thread_step_def worker_args_nth race_inv_def)
next
  case False
  then show ?thesis using assms
    by (simp add: atomic_increment_thread_step_def worker_args_nth)
qed

lemma run_workers_inv:
  assumes "lse \<noteq> 0" "length idx = T" "race_inv I (counter, idx)"
  shows "\<exists>counter' idx'.
           run_workers (worker_args T I lse) sched (counter, idx) = Some (counter', idx') \<and>
           length idx' = T \<and> race_inv I (counter', idx')"
  using assms(2,3)
proof (induction sched arbitrary: counter idx)
  case Nil
  then show ?case by simp
next
  case (Cons k sched)
  show ?case
  proof (cases "k < T")
    case True
    from worker_step_inv [OF assms(1) True Cons.prems] obtain counter' i' where
      s: "atomic_increment_thread_step (worker_args T I lse ! k) (counter, idx ! k) =
            Some (counter', i')" "race_inv I (counter', idx[k := i'])" by blast
    have "length (idx[k := i']) = T" using Cons.prems by simp
    from Cons.IH [OF this s(2)] show ?thesis
      using True s(1) Cons.prems by (simp add: length_worker_args)
  next
    case False
    from Cons.IH [OF Cons.prems] show ?thesis
      using False by (simp add: length_worker_args)
  qed
qed

lemma race_inv_init: "0 \<le> I \<Longrightarrow> race_inv I (race_init T)"
  by (simp add: race_inv_def race_init_def sum_list_replicate)

lemma all_returned_final:
  assumes "all_returned (worker_args T I lse) idx" "race_inv I (counter, idx)" "length idx = T"
  shows "counter = of_int (int T * I)"
proof -
  have "\<forall>k < T. idx ! k = I"
  proof (intro allI impI)
    fix k assume k: "k < T"
    have "worker_returned (worker_args T I lse ! k) (idx ! k)"
      using assms(1,3) k unfolding all_returned_def
      by (simp add: list_all2_conv_all_nth length_worker_args)
    then have "\<not> idx ! k < I" using k by (simp add: worker_returned_def worker_args_nth)
    moreover have "idx ! k \<le> I" using assms(2,3) k by (simp add: race_inv_def)
    ultimately show "idx ! k = I" by simp
  qed
  then have "idx = replicate T I" using assms(3) by (simp add: list_eq_iff_nth_eq)
  then have "sum_list idx = int T * I" by (simp add: sum_list_replicate)
  then show ?thesis using assms(2) by (simp add: race_inv_def)
qed

lemma counter_final:
  assumes "lse \<noteq> 0" "0 \<le> I"
    and "run_workers (worker_args T I lse) sched (race_init T) = Some (counter, idx)"
    and "all_returned (worker_args T I lse) idx"
  shows "counter = of_int (int T * I)"
proof -
  have l: "length (snd (race_init T)) = T" by (simp add: race_init_def)
  have "race_inv I (fst (race_init T), snd (race_init T))"
    using race_inv_init [OF assms(2)] by simp
  from run_workers_inv [OF assms(1) l this, of sched] assms(3)
  have "length idx = T" "race_inv I (counter, idx)" by simp_all
  with assms(4) show ?thesis using all_returned_final by blast
qed

lemma sint_of_int_iff: "sint (of_int x :: c_int) = x \<longleftrightarrow> - (2 ^ 31) \<le> x \<and> x < 2 ^ 31"
  by (simp add: signed_of_int signed_take_bit_int_eq_self_iff)

lemma run_workers_append:
  "run_workers args (s1 @ s2) st =
     (case run_workers args s1 st of None \<Rightarrow> None | Some st' \<Rightarrow> run_workers args s2 st')"
proof (induction s1 arbitrary: st)
  case Nil
  then show ?case by simp
next
  case (Cons k s1)
  obtain counter idx where st: "st = (counter, idx)" by (cases st)
  show ?case unfolding st using Cons.IH by (auto split: option.splits)
qed

lemma run_workers_replicate:
  assumes "lse \<noteq> 0" "k < T" "length idx = T" "idx ! k + int n \<le> I"
  shows "run_workers (worker_args T I lse) (replicate n k) (counter, idx) =
           Some (counter + of_nat n, idx[k := idx ! k + int n])"
  using assms(3,4)
proof (induction n arbitrary: counter idx)
  case 0
  then show ?case by simp
next
  case (Suc n)
  have lt: "idx ! k < I" using Suc.prems by simp
  have l: "length (idx[k := idx ! k + 1]) = T" using Suc.prems by simp
  have b: "idx[k := idx ! k + 1] ! k + int n \<le> I" using Suc.prems assms(2) by simp
  show ?case
    using Suc.IH [OF l b] lt assms(1,2) Suc.prems
    by (simp add: atomic_increment_thread_step_def worker_args_nth length_worker_args
        ac_simps)
qed

lemma run_one_by_one:
  assumes "lse \<noteq> 0" "j \<le> T"
  shows "run_workers (worker_args T (int n) lse) (one_by_one j n) (race_init T) =
           Some (of_nat (j * n), replicate j (int n) @ replicate (T - j) 0)"
  using assms(2)
proof (induction j)
  case 0
  then show ?case by (simp add: one_by_one_def race_init_def)
next
  case (Suc j)
  let ?idx = "replicate j (int n) @ replicate (T - j) (0::int)"
  have j: "j < T" using Suc.prems by simp
  have l: "length ?idx = T" using j by simp
  have z: "?idx ! j = 0" using j by (simp add: nth_append)
  have b: "?idx ! j + int n \<le> int n" using z by simp
  have tl: "replicate (T - j) (0::int) = 0 # replicate (T - Suc j) 0"
    using j by (simp add: Suc_diff_Suc flip: replicate_Suc)
  have "?idx[j := ?idx ! j + int n] = ?idx[j := int n]"
    using z by simp
  also have "\<dots> = replicate j (int n) @ (int n # replicate (T - Suc j) 0)"
    unfolding tl by (simp add: list_update_append)
  also have "\<dots> = (replicate j (int n) @ [int n]) @ replicate (T - Suc j) 0"
    by simp
  also have "\<dots> = replicate (Suc j) (int n) @ replicate (T - Suc j) 0"
    unfolding replicate_append_same by simp
  finally have upd:
    "?idx[j := ?idx ! j + int n] = replicate (Suc j) (int n) @ replicate (T - Suc j) 0" .
  have split: "one_by_one (Suc j) n = one_by_one j n @ replicate n j"
    by (simp add: one_by_one_def)
  show ?case
    unfolding split run_workers_append
    using Suc.IH j run_workers_replicate [OF assms(1) j l b, of "of_nat (j * n)"] upd
    by (simp add: algebra_simps)
qed

lemma race_completes:
  assumes "lse \<noteq> 0"
  shows "run_workers (worker_args T (int n) lse) (one_by_one T n) (race_init T) =
           Some (of_nat (T * n), replicate T (int n))"
    and "all_returned (worker_args T (int n) lse) (replicate T (int n))"
proof -
  show "run_workers (worker_args T (int n) lse) (one_by_one T n) (race_init T) =
           Some (of_nat (T * n), replicate T (int n))"
    using run_one_by_one [OF assms, of T T n] by simp
  show "all_returned (worker_args T (int n) lse) (replicate T (int n))"
    by (simp add: all_returned_def list_all2_conv_all_nth length_worker_args worker_args_nth
        worker_returned_def)
qed

section \<open>The steps of one call make the call\<close>

lemma enqueue_steps:
  assumes "wf_queue q" "p_pc p = PLoadTail" "p_i p < p_num_items p"
  shows "run_threads ((q, tot), [Producer p])
           (if (tail q + 1) mod size_q q = head q then [0, 0] else [0, 0, 0, 0]) =
         (case queue_enqueue q (producer_item (p_thread_id p) (p_num_items p) (p_i p)) of
            Inl f \<Rightarrow> Inl f
          | Inr (q', r) \<Rightarrow>
              Inr ((q', tot),
                   [Producer (p\<lparr>p_tail := tail q, p_next_tail := (tail q + 1) mod size_q q,
                                p_i := (if r = 1 then p_i p + 1 else p_i p)\<rparr>)]))"
proof -
  from assms(1) obtain b where b: "buffer q = Some b" "length b = size_q q"
    by (auto simp: wf_queue_def split: option.splits)
  have s: "0 < size_q q" "tail q < size_q q" using assms(1) by (simp_all add: wf_queue_def)
  show ?thesis
    using assms(2,3) b s
    by (simp add: queue_enqueue_wf [OF assms(1)] producer_step_def)
qed

lemma dequeue_steps:
  assumes "wf_queue q" "c_pc c = CLoadHead" "int (c_i c) < c_num_items c"
  shows "run_threads ((q, tot), [Consumer c])
           (if head q = tail q then [0, 0] else [0, 0, 0, 0]) =
         (case queue_dequeue q (c_item c) of
            Inl f \<Rightarrow> Inl f
          | Inr (q', v, r) \<Rightarrow>
              Inr ((q', tot),
                   [Consumer (c\<lparr>c_head := head q, c_item := v,
                                c_received := (if r = 1 then c_received c @ [v] else c_received c),
                                c_pc := (if r = 1 then CAdd else CLoadHead)\<rparr>)]))"
proof -
  from assms(1) obtain b where b: "buffer q = Some b" "length b = size_q q"
    by (auto simp: wf_queue_def split: option.splits)
  have s: "0 < size_q q" "head q < size_q q" using assms(1) by (simp_all add: wf_queue_def)
  show ?thesis
    using assms(2,3) b s
    by (simp add: queue_dequeue_wf [OF assms(1)] consumer_step_def)
qed

section \<open>The two programs as main runs them\<close>

lemma produced_sum_gauss: "produced_sum P M = gauss P M"
  unfolding produced_sum_def produced_value_def by (rule all_sum_gauss)

lemma gauss_compiled: "gauss NUM_PRODUCERS ITEMS_PER_PRODUCER = 2000001000000"
  by (simp add: gauss_def NUM_PRODUCERS_def ITEMS_PER_PRODUCER_def)

lemma upt_0_2: "[0..<2] = [0, 1]"
  by (simp add: upt_rec numeral_2_eq_2)

lemma items_per_consumer_compiled:
  "items_per_consumer NUM_PRODUCERS NUM_CONSUMERS ITEMS_PER_PRODUCER = 1000000"
  by (simp add: items_per_consumer_def signed_divide_int_def NUM_PRODUCERS_def
      NUM_CONSUMERS_def ITEMS_PER_PRODUCER_def)

lemma items_per_consumer_2_2_1: "items_per_consumer 2 2 1 = 1"
  by (simp add: items_per_consumer_def signed_divide_int_def)

lemma consumers_compiled: "(of_nat NUM_CONSUMERS :: c_int) \<noteq> 0"
  by (simp add: NUM_CONSUMERS_def)

text \<open>
  The product wraps: two producers with \<open>2 ^ 30\<close> items each give every consumer
  the count \<open>- 2 ^ 30\<close>, and a consumer with a negative count returns at its first
  loop test. Without consumers \<^verbatim>\<open>main\<close> divides by zero after its opening lines.
\<close>

lemma items_per_consumer_wraps: "items_per_consumer 2 2 1073741824 = - 1073741824"
  by (simp add: items_per_consumer_def signed_divide_int_def)

lemma negative_count_returns:
  "consumer_step (q, tot) (consumer_init i (sint (items_per_consumer 2 2 1073741824)) junk) =
     Inr ((q, tot),
          (consumer_init i (sint (items_per_consumer 2 2 1073741824)) junk)\<lparr>c_pc := CReturned\<rparr>)"
  unfolding items_per_consumer_wraps by (simp add: consumer_step_def consumer_init_def)

lemma queue_main_gen_no_consumers:
  "queue_main_gen C P 0 M env sched =
     (banner (qe_aarch64 env) (qe_feature_atomics env), Crash DivByZero)"
  by (simp add: queue_main_gen_def)

lemma queue_threads_compiled:
  "queue_threads NUM_PRODUCERS NUM_CONSUMERS ITEMS_PER_PRODUCER junk =
     [Consumer (consumer_init 0 1000000 junk), Consumer (consumer_init 1 1000000 junk),
      Producer (producer_init 0 1000000), Producer (producer_init 1 1000000)]"
  unfolding queue_threads_def items_per_consumer_compiled
  by (simp add: NUM_PRODUCERS_def NUM_CONSUMERS_def ITEMS_PER_PRODUCER_def upt_0_2)

lemma queue_threads_2_2_1:
  "queue_threads 2 2 1 junk =
     [Consumer (consumer_init 0 1 junk), Consumer (consumer_init 1 1 junk),
      Producer (producer_init 0 1), Producer (producer_init 1 1)]"
  unfolding queue_threads_def items_per_consumer_2_2_1
  by (simp add: upt_0_2)

lemma expected_total_2_1: "expected_total 2 1 = 3"
  by (simp add: expected_total_eq gauss_def)

lemma run_double_read:
  "run_threads ((queue_init (qe_malloc race_env) 4, 0), queue_threads 2 2 1 (qe_junk race_env))
     double_read
   = Inr ((\<lparr>buffer = Some [1, 2, 0, 0], head = 1, tail = 2, size_q = 4\<rparr>, 2),
       [Consumer \<lparr>c_thread_id = 0, c_num_items = 1, c_i = 1, c_pc = CReturned, c_head = 0,
                  c_item = 1, c_received = [1]\<rparr>,
        Consumer \<lparr>c_thread_id = 1, c_num_items = 1, c_i = 1, c_pc = CReturned, c_head = 0,
                  c_item = 1, c_received = [1]\<rparr>,
        Producer \<lparr>p_thread_id = 0, p_num_items = 1, p_i = 1, p_pc = PReturned, p_tail = 0,
                  p_next_tail = 1\<rparr>,
        Producer \<lparr>p_thread_id = 1, p_num_items = 1, p_i = 1, p_pc = PReturned, p_tail = 1,
                  p_next_tail = 2\<rparr>])"
  unfolding queue_threads_2_2_1
  by (simp add: race_env_def double_read_def step_defs producer_item_def)

lemma run_in_turn:
  "run_threads ((queue_init (qe_malloc race_env) 4, 0), queue_threads 2 2 1 (qe_junk race_env))
     in_turn
   = Inr ((\<lparr>buffer = Some [1, 2, 0, 0], head = 2, tail = 2, size_q = 4\<rparr>, 3),
       [Consumer \<lparr>c_thread_id = 0, c_num_items = 1, c_i = 1, c_pc = CReturned, c_head = 0,
                  c_item = 1, c_received = [1]\<rparr>,
        Consumer \<lparr>c_thread_id = 1, c_num_items = 1, c_i = 1, c_pc = CReturned, c_head = 1,
                  c_item = 2, c_received = [2]\<rparr>,
        Producer \<lparr>p_thread_id = 0, p_num_items = 1, p_i = 1, p_pc = PReturned, p_tail = 0,
                  p_next_tail = 1\<rparr>,
        Producer \<lparr>p_thread_id = 1, p_num_items = 1, p_i = 1, p_pc = PReturned, p_tail = 1,
                  p_next_tail = 2\<rparr>])"
  unfolding queue_threads_2_2_1
  by (simp add: race_env_def in_turn_def step_defs producer_item_def)

lemma run_threads_append:
  "run_threads st (s1 @ s2) =
     (case run_threads st s1 of Inl f \<Rightarrow> Inl f | Inr st' \<Rightarrow> run_threads st' s2)"
proof (induction s1 arbitrary: st)
  case Nil
  then show ?case by simp
next
  case (Cons k s1)
  obtain s ths where st: "st = (s, ths)" by (cases st)
  show ?case unfolding st using Cons.IH by (auto split: sum.splits)
qed

lemma starved_step:
  assumes "head q = tail q" "starved q th"
  shows "\<exists>th'. thread_step (q, tot) th = Inr ((q, tot), th') \<and> starved q th' \<and>
           thread_returned th' = thread_returned th"
proof (cases th)
  case (Producer p)
  then show ?thesis using assms by (simp add: producer_step_def)
next
  case (Consumer c)
  then show ?thesis using assms
    by (cases "c_pc c") (auto simp: consumer_step_def)
qed

lemma starved_run:
  assumes "head q = tail q" "list_all (starved q) ths"
  shows "\<exists>ths'. run_threads ((q, tot), ths) sched = Inr ((q, tot), ths') \<and>
           list_all (starved q) ths' \<and> map thread_returned ths' = map thread_returned ths"
  using assms(2)
proof (induction sched arbitrary: ths)
  case Nil
  then show ?case by simp
next
  case (Cons k sched)
  show ?case
  proof (cases "k < length ths")
    case False
    then show ?thesis using Cons.IH [OF Cons.prems] by simp
  next
    case True
    then have "starved q (ths ! k)" using Cons.prems by (simp add: list_all_length)
    from starved_step [OF assms(1) this, of tot] obtain th' where
      s: "thread_step (q, tot) (ths ! k) = Inr ((q, tot), th')" "starved q th'"
         "thread_returned th' = thread_returned (ths ! k)" by blast
    have a: "list_all (starved q) (ths[k := th'])"
      using Cons.prems s(2) True by (auto simp: list_all_length nth_list_update)
    have m: "map thread_returned (ths[k := th']) = map thread_returned ths"
      using s(3) True by (simp add: map_update list_update_same_conv)
    from Cons.IH [OF a] obtain ths' where
      r: "run_threads ((q, tot), ths[k := th']) sched = Inr ((q, tot), ths')"
         "list_all (starved q) ths'"
         "map thread_returned ths' = map thread_returned (ths[k := th'])" by blast
    show ?thesis using True s(1) r m by simp
  qed
qed

lemma run_lost_update:
  "run_threads ((queue_init (qe_malloc race_env) 4, 0), queue_threads 2 2 1 (qe_junk race_env))
     lost_update
   = Inr ((\<lparr>buffer = Some [2, 0, 0, 0], head = 1, tail = 1, size_q = 4\<rparr>, 2),
       [Consumer \<lparr>c_thread_id = 0, c_num_items = 1, c_i = 1, c_pc = CReturned, c_head = 0,
                  c_item = 2, c_received = [2]\<rparr>,
        Consumer (consumer_init 1 1 0),
        Producer \<lparr>p_thread_id = 0, p_num_items = 1, p_i = 1, p_pc = PReturned, p_tail = 0,
                  p_next_tail = 1\<rparr>,
        Producer \<lparr>p_thread_id = 1, p_num_items = 1, p_i = 1, p_pc = PReturned, p_tail = 0,
                  p_next_tail = 1\<rparr>])"
  unfolding queue_threads_2_2_1
  by (simp add: race_env_def lost_update_def step_defs producer_item_def)

lemma lost_update_waits:
  "queue_main_gen 4 2 2 1 race_env (lost_update @ sched) =
     (queue_prologue 2 2 1 race_env, Waiting)"
proof -
  let ?q = "\<lparr>buffer = Some [2, 0, 0, 0], head = 1, tail = 1, size_q = 4\<rparr>"
  let ?ths = "[Consumer \<lparr>c_thread_id = 0, c_num_items = 1, c_i = 1, c_pc = CReturned, c_head = 0,
                  c_item = 2, c_received = [2]\<rparr>,
        Consumer (consumer_init 1 1 0),
        Producer \<lparr>p_thread_id = 0, p_num_items = 1, p_i = 1, p_pc = PReturned, p_tail = 0,
                  p_next_tail = 1\<rparr>,
        Producer \<lparr>p_thread_id = 1, p_num_items = 1, p_i = 1, p_pc = PReturned, p_tail = 0,
                  p_next_tail = 1\<rparr>]"
  have e: "head ?q = tail ?q" by simp
  have s: "list_all (starved ?q) ?ths" by (simp add: consumer_init_def)
  from starved_run [OF e s, of 2 sched] obtain ths' where
    r: "run_threads ((?q, 2), ?ths) sched = Inr ((?q, 2), ths')"
    and m: "map thread_returned ths' = map thread_returned ?ths" by blast
  have "list_all thread_returned ths' = list_all (\<lambda>b. b) (map thread_returned ths')"
    by (simp add: list.pred_map o_def)
  also have "\<dots> = list_all (\<lambda>b. b) (map thread_returned ?ths)"
    by (simp only: m)
  also have "\<dots> = list_all thread_returned ?ths"
    by (simp add: list.pred_map o_def)
  finally have n: "\<not> list_all thread_returned ths'" by (simp add: consumer_init_def)
  show ?thesis
    unfolding queue_main_gen_def run_threads_append run_lost_update
    using r n by simp
qed

lemma stuck_on_null_step:
  assumes "buffer q = None" "head q = tail q" "size_q q \<noteq> 0" "stuck_on_null q th"
  shows "thread_step (q, tot) th = Inl NullDeref \<or>
         (\<exists>th'. thread_step (q, tot) th = Inr ((q, tot), th') \<and> stuck_on_null q th' \<and>
                is_producer th' = is_producer th)"
proof (cases th)
  case (Producer p)
  then show ?thesis using assms
    by (auto simp: producer_step_def)
next
  case (Consumer c)
  then show ?thesis using assms
    by (cases "c_pc c") (auto simp: consumer_step_def)
qed

lemma stuck_on_null_run:
  assumes "buffer q = None" "head q = tail q" "size_q q \<noteq> 0"
    and "list_all (stuck_on_null q) ths"
  shows "run_threads ((q, tot), ths) sched = Inl NullDeref \<or>
         (\<exists>ths'. run_threads ((q, tot), ths) sched = Inr ((q, tot), ths') \<and>
                 list_all (stuck_on_null q) ths' \<and>
                 map is_producer ths' = map is_producer ths)"
  using assms(4)
proof (induction sched arbitrary: ths)
  case Nil
  then show ?case by simp
next
  case (Cons k sched)
  show ?case
  proof (cases "k < length ths")
    case False
    then show ?thesis using Cons.IH [OF Cons.prems] by simp
  next
    case True
    then have "stuck_on_null q (ths ! k)" using Cons.prems by (simp add: list_all_length)
    from stuck_on_null_step [OF assms(1-3) this, of tot]
    consider "thread_step (q, tot) (ths ! k) = Inl NullDeref"
      | th' where "thread_step (q, tot) (ths ! k) = Inr ((q, tot), th')" "stuck_on_null q th'"
          "is_producer th' = is_producer (ths ! k)" by blast
    then show ?thesis
    proof cases
      case 1
      then show ?thesis using True by simp
    next
      case 2
      have a: "list_all (stuck_on_null q) (ths[k := th'])"
        using Cons.prems 2(2) True by (auto simp: list_all_length nth_list_update)
      have m: "map is_producer (ths[k := th']) = map is_producer ths"
        using 2(3) True by (simp add: map_update list_update_same_conv)
      from Cons.IH [OF a] show ?thesis using True 2(1) m by auto
    qed
  qed
qed

lemma stuck_producer_not_returned:
  assumes "list_all (stuck_on_null q) ths" "map is_producer ths = map is_producer ths0"
    and "j < length ths0" "is_producer (ths0 ! j)"
  shows "\<not> list_all thread_returned ths"
proof -
  have l: "length ths = length ths0" using assms(2) by (metis length_map)
  have "is_producer (ths ! j)"
    using assms(2,3,4) l by (metis nth_map)
  then obtain p where p: "ths ! j = Producer p" by (cases "ths ! j") simp_all
  have "stuck_on_null q (ths ! j)" using assms(1,3) l by (simp add: list_all_length)
  then have "\<not> thread_returned (ths ! j)" using p by auto
  then show ?thesis using assms(3) l by (auto simp: list_all_length)
qed

lemma null_buffer_never_exits:
  "fst (queue_main (env\<lparr>qe_malloc := None\<rparr>) sched) =
     queue_prologue NUM_PRODUCERS NUM_CONSUMERS ITEMS_PER_PRODUCER env \<and>
   (snd (queue_main (env\<lparr>qe_malloc := None\<rparr>) sched) = Crash NullDeref \<or>
    snd (queue_main (env\<lparr>qe_malloc := None\<rparr>) sched) = Waiting)"
proof -
  let ?q = "queue_init None QUEUE_SIZE"
  let ?ths = "queue_threads NUM_PRODUCERS NUM_CONSUMERS ITEMS_PER_PRODUCER (qe_junk env)"
  have q: "buffer ?q = None" "head ?q = tail ?q" "size_q ?q \<noteq> 0"
    by (simp_all add: queue_init_def QUEUE_SIZE_def)
  have s: "list_all (stuck_on_null ?q) ?ths"
    by (simp add: queue_threads_compiled consumer_init_def producer_init_def queue_init_def)
  have pr: "queue_prologue NUM_PRODUCERS NUM_CONSUMERS ITEMS_PER_PRODUCER
              (env\<lparr>qe_malloc := None\<rparr>) =
            queue_prologue NUM_PRODUCERS NUM_CONSUMERS ITEMS_PER_PRODUCER env"
    by (simp add: queue_prologue_def)
  from stuck_on_null_run [OF q s, of 0 sched]
  consider "run_threads ((?q, 0), ?ths) sched = Inl NullDeref"
    | ths' where "run_threads ((?q, 0), ?ths) sched = Inr ((?q, 0), ths')"
        "list_all (stuck_on_null ?q) ths'" "map is_producer ths' = map is_producer ?ths"
    by blast
  then show ?thesis
  proof cases
    case 1
    then show ?thesis
      unfolding queue_main_def queue_main_gen_def by (simp add: pr consumers_compiled)
  next
    case 2
    have "\<not> list_all thread_returned ths'"
      using stuck_producer_not_returned [OF 2(2,3), of 2]
      by (simp add: queue_threads_compiled)
    then show ?thesis
      unfolding queue_main_def queue_main_gen_def using 2(1)
      by (simp add: pr consumers_compiled)
  qed
qed

section \<open>The shared total is what the consumers took\<close>

lemma thread_step_added:
  assumes "thread_step (q, tot) th = Inr ((q', tot'), th')"
  shows "tot' - added th' = tot - added th"
proof (cases th)
  case (Producer p)
  then show ?thesis using assms by (auto split: sum.splits)
next
  case (Consumer c)
  then show ?thesis using assms
    by (cases "c_pc c") (auto simp: consumer_step_def split: if_splits option.splits)
qed

lemma sum_list_update_word:
  "k < length xs \<Longrightarrow> sum_list (xs[k := v]) = sum_list xs - xs ! k + (v::c_int)"
proof (induction xs arbitrary: k)
  case Nil
  then show ?case by simp
next
  case (Cons x xs)
  then show ?case by (cases k) simp_all
qed

lemma run_threads_added:
  assumes "run_threads ((q, tot), ths) sched = Inr ((q', tot'), ths')"
  shows "tot' - sum_list (map added ths') = tot - sum_list (map added ths)"
  using assms
proof (induction sched arbitrary: q tot ths)
  case Nil
  then show ?case by simp
next
  case (Cons k sched)
  show ?case
  proof (cases "k < length ths")
    case False
    then show ?thesis using Cons by simp
  next
    case True
    from Cons.prems True obtain q1 tot1 th1 where
      s: "thread_step (q, tot) (ths ! k) = Inr ((q1, tot1), th1)"
      and r: "run_threads ((q1, tot1), ths[k := th1]) sched = Inr ((q', tot'), ths')"
      by (auto split: sum.splits)
    have "tot' - sum_list (map added ths') = tot1 - sum_list (map added (ths[k := th1]))"
      using Cons.IH [OF r] .
    also have "\<dots> = tot1 - (sum_list (map added ths) - added (ths ! k) + added th1)"
      using True by (simp add: map_update sum_list_update_word)
    also have "\<dots> = (tot1 - added th1) - sum_list (map added ths) + added (ths ! k)" by simp
    also have "\<dots> = (tot - added (ths ! k)) - sum_list (map added ths) + added (ths ! k)"
      using thread_step_added [OF s] by simp
    finally show ?thesis by simp
  qed
qed

lemma added_init: "sum_list (map added (queue_threads P Q M junk)) = 0"
  by (simp add: queue_threads_def consumer_init_def o_def)

lemma added_returned:
  "list_all thread_returned ths \<Longrightarrow> sum_list (map added ths) = sum_list (delivered ths)"
proof (induction ths)
  case Nil
  then show ?case by simp
next
  case (Cons th ths)
  then show ?case by (cases th) simp_all
qed

lemma finished_total:
  assumes "run_threads ((queue_init m C, 0), queue_threads P Q M junk) sched =
             Inr ((q', tot), ths)"
    and "list_all thread_returned ths"
  shows "tot = consumer_total 0 (delivered ths)"
  using run_threads_added [OF assms(1)] added_returned [OF assms(2)]
  by (simp add: added_init consumer_total_eq)

section \<open>Runs without overlapping calls\<close>

lemma next_slot_differs:
  assumes "2 \<le> (C::nat)" "t < C"
  shows "(t + 1) mod C \<noteq> t"
proof (cases "t + 1 = C")
  case True
  then show ?thesis using assms by simp
next
  case False
  then have "t + 1 < C" using assms by simp
  then show ?thesis by simp
qed

lemma enqueue_alone:
  assumes "x < length ths" "ths ! x = Producer p" "p_pc p = PLoadTail" "p_i p < p_num_items p"
    and "buffer q = Some b" "tail q < length b" "size_q q \<noteq> 0"
    and "(tail q + 1) mod size_q q \<noteq> head q"
  shows "run_threads ((q, tot), ths) [x, x, x, x] =
         Inr ((q\<lparr>buffer := Some (b[tail q := producer_item (p_thread_id p) (p_num_items p) (p_i p)]),
                 tail := (tail q + 1) mod size_q q\<rparr>, tot),
              ths[x := Producer (p\<lparr>p_tail := tail q,
                                    p_next_tail := (tail q + 1) mod size_q q,
                                    p_i := p_i p + 1, p_pc := PLoadTail\<rparr>)])"
  using assms by (simp add: producer_step_def)

lemma dequeue_alone:
  assumes "y < length ths" "ths ! y = Consumer c" "c_pc c = CLoadHead"
    and "int (c_i c) < c_num_items c"
    and "buffer q = Some b" "head q < length b" "size_q q \<noteq> 0" "head q \<noteq> tail q"
  shows "run_threads ((q, tot), ths) [y, y, y, y, y] =
         Inr ((q\<lparr>head := (head q + 1) mod size_q q\<rparr>, tot + b ! head q),
              ths[y := Consumer (c\<lparr>c_head := head q, c_item := b ! head q,
                                    c_received := c_received c @ [b ! head q],
                                    c_i := c_i c + 1, c_pc := CLoadHead\<rparr>)])"
  using assms by (simp add: consumer_step_def)

lemma update_pair_again:
  assumes "x \<noteq> y"
  shows "ths[x := a, y := b, x := a', y := b'] = ths[x := a', y := b']"
proof (rule nth_equalityI)
  show "length (ths[x := a, y := b, x := a', y := b']) = length (ths[x := a', y := b'])"
    by simp
next
  fix i assume "i < length (ths[x := a, y := b, x := a', y := b'])"
  then have i: "i < length ths" by simp
  show "ths[x := a, y := b, x := a', y := b'] ! i = ths[x := a', y := b'] ! i"
    using assms i by (cases "i = y"; cases "i = x") simp_all
qed

lemma round_run:
  assumes x: "x < length ths" "ths ! x = Producer p" "p_pc p = PLoadTail"
      "p_i p < p_num_items p"
    and y: "y < length ths" "ths ! y = Consumer c" "c_pc c = CLoadHead"
      "int (c_i c) < c_num_items c"
    and q: "buffer q = Some b" "length b = size_q q" "2 \<le> size_q q" "head q = tail q"
      "tail q < size_q q"
  shows "run_threads ((q, tot), ths) (round_of x y) =
         Inr ((q\<lparr>buffer := Some (b[tail q := producer_item (p_thread_id p) (p_num_items p) (p_i p)]),
                 tail := (tail q + 1) mod size_q q, head := (tail q + 1) mod size_q q\<rparr>,
               tot + producer_item (p_thread_id p) (p_num_items p) (p_i p)),
              ths[x := Producer (p\<lparr>p_tail := tail q,
                                    p_next_tail := (tail q + 1) mod size_q q,
                                    p_i := p_i p + 1, p_pc := PLoadTail\<rparr>),
                  y := Consumer (c\<lparr>c_head := tail q,
                       c_item := producer_item (p_thread_id p) (p_num_items p) (p_i p),
                       c_received := c_received c @
                         [producer_item (p_thread_id p) (p_num_items p) (p_i p)],
                       c_i := c_i c + 1, c_pc := CLoadHead\<rparr>)])"
proof -
  let ?it = "producer_item (p_thread_id p) (p_num_items p) (p_i p)"
  let ?n = "(tail q + 1) mod size_q q"
  let ?q1 = "q\<lparr>buffer := Some (b[tail q := ?it]), tail := ?n\<rparr>"
  let ?ths1 = "ths[x := Producer (p\<lparr>p_tail := tail q, p_next_tail := ?n,
                                    p_i := p_i p + 1, p_pc := PLoadTail\<rparr>)]"
  have xy: "x \<noteq> y" using x(2) y(2) by auto
  have n: "?n \<noteq> tail q" using next_slot_differs [OF q(3) q(5)] .
  have e: "run_threads ((q, tot), ths) [x, x, x, x] = Inr ((?q1, tot), ?ths1)"
    using x q n by (intro enqueue_alone) simp_all
  have d: "run_threads ((?q1, tot), ?ths1) [y, y, y, y, y] =
           Inr ((?q1\<lparr>head := (head ?q1 + 1) mod size_q ?q1\<rparr>, tot + (b[tail q := ?it]) ! head ?q1),
              ?ths1[y := Consumer (c\<lparr>c_head := head ?q1, c_item := (b[tail q := ?it]) ! head ?q1,
                                    c_received := c_received c @ [(b[tail q := ?it]) ! head ?q1],
                                    c_i := c_i c + 1, c_pc := CLoadHead\<rparr>)])"
    using y q n xy by (intro dequeue_alone) simp_all
  have "run_threads ((q, tot), ths) (round_of x y) =
        run_threads ((?q1, tot), ?ths1) [y, y, y, y, y]"
    using run_threads_append [of "((q, tot), ths)" "[x, x, x, x]" "[y, y, y, y, y]"] e
    by (simp add: round_of_def)
  also note d
  finally show ?thesis using q by simp
qed

lemma rounds_Suc: "rounds x y (Suc k) = round_of x y @ rounds x y k"
  by (simp add: rounds_def)

lemma rounds_run:
  assumes "x < length ths" "ths ! x = Producer p" "y < length ths" "ths ! y = Consumer c"
    and "ready q p c" "p_i p + k \<le> p_num_items p" "int (c_i c + k) \<le> c_num_items c"
  shows "\<exists>q' p' c'.
           run_threads ((q, tot), ths) (rounds x y k) =
             Inr ((q', tot + sum_list (map (producer_item (p_thread_id p) (p_num_items p))
                                         [p_i p..<p_i p + k])),
                  ths[x := Producer p', y := Consumer c']) \<and>
           moved k q p c q' p' c'"
  using assms
proof (induction k arbitrary: q tot ths p c)
  case 0
  have "ths[x := Producer p, y := Consumer c] = ths"
    using 0(2,4) by (metis list_update_id)
  moreover have "moved 0 q p c q p c" using 0(5) by (simp add: moved_def ready_def)
  ultimately show ?case
    by (intro exI [of _ q] exI [of _ p] exI [of _ c]) (simp add: rounds_def)
next
  case (Suc k)
  let ?it = "producer_item (p_thread_id p) (p_num_items p)"
  let ?n = "(tail q + 1) mod size_q q"
  from Suc.prems(5) obtain b where b: "buffer q = Some b" "length b = size_q q"
    and r: "p_pc p = PLoadTail" "c_pc c = CLoadHead" "2 \<le> size_q q" "head q = tail q"
      "tail q < size_q q"
    by (auto simp: ready_def)
  let ?q1 = "q\<lparr>buffer := Some (b[tail q := ?it (p_i p)]), tail := ?n, head := ?n\<rparr>"
  let ?p1 = "p\<lparr>p_tail := tail q, p_next_tail := ?n, p_i := p_i p + 1, p_pc := PLoadTail\<rparr>"
  let ?c1 = "c\<lparr>c_head := tail q, c_item := ?it (p_i p),
               c_received := c_received c @ [?it (p_i p)],
               c_i := c_i c + 1, c_pc := CLoadHead\<rparr>"
  let ?ths1 = "ths[x := Producer ?p1, y := Consumer ?c1]"
  have xy: "x \<noteq> y" using Suc.prems(2,4) by auto
  have lt: "p_i p < p_num_items p" "int (c_i c) < c_num_items c" using Suc.prems(6,7) by simp_all
  have one: "run_threads ((q, tot), ths) (round_of x y) =
             Inr ((?q1, tot + ?it (p_i p)), ?ths1)"
    using round_run [OF Suc.prems(1,2) r(1) lt(1) Suc.prems(3,4) r(2) lt(2) b r(3,4,5)] .
  have x1: "x < length ?ths1" "?ths1 ! x = Producer ?p1"
    and y1: "y < length ?ths1" "?ths1 ! y = Consumer ?c1"
    using Suc.prems(1,3) xy by simp_all
  have r1: "ready ?q1 ?p1 ?c1" using b r by (simp add: ready_def)
  have n1: "p_i ?p1 + k \<le> p_num_items ?p1" "int (c_i ?c1 + k) \<le> c_num_items ?c1"
    using Suc.prems(6,7) by simp_all
  from Suc.IH [OF x1 y1 r1 n1, of "tot + ?it (p_i p)"] obtain q' p' c' where
    run: "run_threads ((?q1, tot + ?it (p_i p)), ?ths1) (rounds x y k) =
            Inr ((q', tot + ?it (p_i p) +
                   sum_list (map (producer_item (p_thread_id ?p1) (p_num_items ?p1))
                               [p_i ?p1..<p_i ?p1 + k])),
                 ?ths1[x := Producer p', y := Consumer c'])"
    and m: "moved k ?q1 ?p1 ?c1 q' p' c'" by blast
  have u: "[p_i p..<p_i p + Suc k] = p_i p # [p_i p + 1..<p_i p + 1 + k]"
    by (simp add: upt_conv_Cons)
  have l: "?ths1[x := Producer p', y := Consumer c'] = ths[x := Producer p', y := Consumer c']"
    using update_pair_again [OF xy] .
  have s: "tot + ?it (p_i p) +
             sum_list (map (producer_item (p_thread_id ?p1) (p_num_items ?p1))
                         [p_i ?p1..<p_i ?p1 + k]) =
           tot + sum_list (map ?it [p_i p..<p_i p + Suc k])"
    unfolding u by (simp add: add.assoc)
  have t: "(?n + k) mod size_q q = (tail q + Suc k) mod size_q q"
    by (simp add: mod_add_left_eq)
  have m': "moved (Suc k) q p c q' p' c'"
    using m t unfolding moved_def u by simp
  have "run_threads ((q, tot), ths) (rounds x y (Suc k)) =
        Inr ((q', tot + sum_list (map ?it [p_i p..<p_i p + Suc k])),
             ths[x := Producer p', y := Consumer c'])"
    unfolding rounds_Suc run_threads_append one using run l s by simp
  then show ?case using m' by blast
qed

lemma row_total:
  "sum_list (map (producer_item p M) [0..<n]) =
     (of_nat ((2 * (p * M) * n + n * (n + 1)) div 2) :: c_int)"
proof -
  have "(\<Sum>k = 0..<n. p * M + k + 1) = (2 * (p * M) * n + n * (n + 1)) div 2"
    using row_sum [of "p * M" n] by presburger
  then show ?thesis by (simp only: sum_list_row)
qed

lemma row_total_from_1:
  assumes "0 < n"
  shows "sum_list (map (producer_item p M) [1..<n]) =
     (of_nat ((2 * (p * M) * n + n * (n + 1)) div 2) :: c_int) - producer_item p M 0"
proof -
  have "[0..<n] = 0 # [1..<n]" using assms by (simp add: upt_conv_Cons)
  then have "sum_list (map (producer_item p M) [0..<n]) =
             producer_item p M 0 + sum_list (map (producer_item p M) [1..<n])" by simp
  then show ?thesis using row_total [of p M n] by simp
qed

lemma run_double_read_prefix:
  "run_threads
     ((queue_init (Some (replicate QUEUE_SIZE v)) QUEUE_SIZE, 0),
      queue_threads NUM_PRODUCERS NUM_CONSUMERS ITEMS_PER_PRODUCER junk)
     [2, 2, 2, 2, 0, 0, 1, 1, 0, 0, 0, 1, 1, 1] =
   Inr ((\<lparr>buffer = Some ((replicate QUEUE_SIZE v)[0 := 1]), head = 1, tail = 1,
          size_q = QUEUE_SIZE\<rparr>, 2),
        [Consumer \<lparr>c_thread_id = 0, c_num_items = 1000000, c_i = 1, c_pc = CLoadHead,
                   c_head = 0, c_item = 1, c_received = [1]\<rparr>,
         Consumer \<lparr>c_thread_id = 1, c_num_items = 1000000, c_i = 1, c_pc = CLoadHead,
                   c_head = 0, c_item = 1, c_received = [1]\<rparr>,
         Producer \<lparr>p_thread_id = 0, p_num_items = 1000000, p_i = 1, p_pc = PLoadTail,
                   p_tail = 0, p_next_tail = 1\<rparr>,
         Producer (producer_init 1 1000000)])"
  by (simp add: queue_threads_compiled QUEUE_SIZE_def step_defs producer_item_def)

lemma run_double_read_compiled:
  "\<exists>q c0 c1 p0 p1.
     run_threads
       ((queue_init (Some (replicate QUEUE_SIZE v)) QUEUE_SIZE, 0),
        queue_threads NUM_PRODUCERS NUM_CONSUMERS ITEMS_PER_PRODUCER junk)
       double_read_compiled =
     Inr ((q, - 1455759935), [Consumer c0, Consumer c1, Producer p0, Producer p1]) \<and>
     c_pc c0 = CReturned \<and> c_pc c1 = CReturned \<and> p_pc p0 = PReturned \<and> p_pc p1 = PReturned"
proof -
  let ?q0 = "\<lparr>buffer = Some ((replicate QUEUE_SIZE v)[0 := 1]), head = 1, tail = 1,
          size_q = QUEUE_SIZE\<rparr>"
  let ?c0 = "\<lparr>c_thread_id = 0, c_num_items = 1000000, c_i = 1, c_pc = CLoadHead,
                   c_head = 0, c_item = 1, c_received = [1]\<rparr>"
  let ?c1 = "\<lparr>c_thread_id = 1, c_num_items = 1000000, c_i = 1, c_pc = CLoadHead,
                   c_head = 0, c_item = 1, c_received = [1]\<rparr>"
  let ?p0 = "\<lparr>p_thread_id = 0, p_num_items = 1000000, p_i = 1, p_pc = PLoadTail,
                   p_tail = 0, p_next_tail = 1\<rparr>"
  let ?p1 = "producer_init 1 1000000"
  let ?ths0 = "[Consumer ?c0, Consumer ?c1, Producer ?p0, Producer ?p1]"
  let ?t1 = "2 + sum_list (map (producer_item 0 1000000) [1..<1000000]) :: c_int"
  let ?t2 = "?t1 + sum_list (map (producer_item 1 1000000) [0..<999999])"
  have r0: "ready ?q0 ?p0 ?c0" by (simp add: ready_def QUEUE_SIZE_def)
  from rounds_run [of 2 ?ths0 ?p0 0 ?c0 ?q0 999999 2] r0
  obtain q1 p0' c0' where
    run1: "run_threads ((?q0, 2), ?ths0) (rounds 2 0 999999) =
             Inr ((q1, ?t1), [Consumer c0', Consumer ?c1, Producer p0', Producer ?p1])"
    and m1: "moved 999999 ?q0 ?p0 ?c0 q1 p0' c0'"
    by auto
  let ?ths1 = "[Consumer c0', Consumer ?c1, Producer p0', Producer ?p1]"
  have r1: "ready q1 ?p1 ?c1" using m1 by (auto simp: moved_def ready_def producer_init_def)
  from rounds_run [of 3 ?ths1 ?p1 1 ?c1 q1 999999 ?t1] r1
  obtain q2 p1' c1' where
    run2: "run_threads ((q1, ?t1), ?ths1) (rounds 3 1 999999) =
             Inr ((q2, ?t2), [Consumer c0', Consumer c1', Producer p0', Producer p1'])"
    and m2: "moved 999999 q1 ?p1 ?c1 q2 p1' c1'"
    by (auto simp: producer_init_def)
  let ?ths2 = "[Consumer c0', Consumer c1', Producer p0', Producer p1']"
  from m2 obtain b2 where b2: "buffer q2 = Some b2" "length b2 = size_q q2"
    and k2: "2 \<le> size_q q2" "head q2 = tail q2" "tail q2 < size_q q2"
    and pc2: "p_pc p1' = PLoadTail" "c_pc c1' = CLoadHead"
    by (auto simp: moved_def ready_def)
  have i2: "p_i p1' = 999999" "p_num_items p1' = 1000000" "c_i c1' = 1000000"
    "c_num_items c1' = 1000000"
    using m2 by (simp_all add: moved_def producer_init_def)
  have i1: "p_i p0' = 1000000" "p_num_items p0' = 1000000" "c_i c0' = 1000000"
    "c_num_items c0' = 1000000" "p_pc p0' = PLoadTail" "c_pc c0' = CLoadHead"
    using m1 by (simp_all add: moved_def ready_def)
  let ?p1'' = "p1'\<lparr>p_tail := tail q2, p_next_tail := (tail q2 + 1) mod size_q q2,
                   p_i := p_i p1' + 1, p_pc := PLoadTail\<rparr>"
  let ?q3 = "q2\<lparr>buffer := Some (b2[tail q2 :=
                 producer_item (p_thread_id p1') (p_num_items p1') (p_i p1')]),
               tail := (tail q2 + 1) mod size_q q2\<rparr>"
  have n: "(tail q2 + 1) mod size_q q2 \<noteq> head q2"
    using next_slot_differs [OF k2(1) k2(3)] k2(2) by simp
  have run3: "run_threads ((q2, ?t2), ?ths2) [3, 3, 3, 3] =
              Inr ((?q3, ?t2), [Consumer c0', Consumer c1', Producer p0', Producer ?p1''])"
    using enqueue_alone [of 3 ?ths2 p1' q2 b2 ?t2] pc2 i2 b2 k2 n by simp
  have run4: "run_threads ((?q3, ?t2), [Consumer c0', Consumer c1', Producer p0', Producer ?p1''])
                [0, 1, 2, 3] =
              Inr ((?q3, ?t2), [Consumer (c0'\<lparr>c_pc := CReturned\<rparr>),
                 Consumer (c1'\<lparr>c_pc := CReturned\<rparr>), Producer (p0'\<lparr>p_pc := PReturned\<rparr>),
                 Producer (?p1''\<lparr>p_pc := PReturned\<rparr>)])"
    using i1 i2 pc2 by (simp add: producer_step_def consumer_step_def)
  have t: "?t2 = - 1455759935"
    by (simp add: row_total row_total_from_1 [unfolded One_nat_def] producer_item_def)
  have "run_threads
       ((queue_init (Some (replicate QUEUE_SIZE v)) QUEUE_SIZE, 0),
        queue_threads NUM_PRODUCERS NUM_CONSUMERS ITEMS_PER_PRODUCER junk)
       double_read_compiled =
     Inr ((?q3, ?t2), [Consumer (c0'\<lparr>c_pc := CReturned\<rparr>),
                 Consumer (c1'\<lparr>c_pc := CReturned\<rparr>), Producer (p0'\<lparr>p_pc := PReturned\<rparr>),
                 Producer (?p1''\<lparr>p_pc := PReturned\<rparr>)])"
    unfolding double_read_compiled_def run_threads_append run_double_read_prefix
    using run1 run2 run3 run4 by simp
  then show ?thesis unfolding t by force
qed

lemma produced_compiled:
  "produced NUM_PRODUCERS ITEMS_PER_PRODUCER =
     map (producer_item 0 1000000) [0..<1000000] @ map (producer_item 1 1000000) [0..<1000000]"
  by (simp add: produced_def NUM_PRODUCERS_def ITEMS_PER_PRODUCER_def upt_0_2)

lemma run_in_turn_compiled:
  "\<exists>q c0 c1 p0 p1.
     run_threads
       ((queue_init (Some (replicate QUEUE_SIZE v)) QUEUE_SIZE, 0),
        queue_threads NUM_PRODUCERS NUM_CONSUMERS ITEMS_PER_PRODUCER junk)
       in_turn_compiled =
     Inr ((q, - 1453759936), [Consumer c0, Consumer c1, Producer p0, Producer p1]) \<and>
     c_pc c0 = CReturned \<and> c_pc c1 = CReturned \<and> p_pc p0 = PReturned \<and> p_pc p1 = PReturned \<and>
     c_received c0 @ c_received c1 = produced NUM_PRODUCERS ITEMS_PER_PRODUCER"
proof -
  let ?q0 = "queue_init (Some (replicate QUEUE_SIZE v)) QUEUE_SIZE"
  let ?c0 = "consumer_init 0 1000000 junk"
  let ?c1 = "consumer_init 1 1000000 junk"
  let ?p0 = "producer_init 0 1000000"
  let ?p1 = "producer_init 1 1000000"
  let ?ths0 = "[Consumer ?c0, Consumer ?c1, Producer ?p0, Producer ?p1]"
  let ?t1 = "sum_list (map (producer_item 0 1000000) [0..<1000000]) :: c_int"
  let ?t2 = "?t1 + sum_list (map (producer_item 1 1000000) [0..<1000000])"
  have r0: "ready ?q0 ?p0 ?c0" by (simp add: ready_def QUEUE_SIZE_def step_defs)
  from rounds_run [of 2 ?ths0 ?p0 0 ?c0 ?q0 1000000 0] r0
  obtain q1 p0' c0' where
    run1: "run_threads ((?q0, 0), ?ths0) (rounds 2 0 1000000) =
             Inr ((q1, ?t1), [Consumer c0', Consumer ?c1, Producer p0', Producer ?p1])"
    and m1: "moved 1000000 ?q0 ?p0 ?c0 q1 p0' c0'"
    by (auto simp: producer_init_def consumer_init_def)
  let ?ths1 = "[Consumer c0', Consumer ?c1, Producer p0', Producer ?p1]"
  have r1: "ready q1 ?p1 ?c1"
    using m1 by (auto simp: moved_def ready_def producer_init_def consumer_init_def)
  from rounds_run [of 3 ?ths1 ?p1 1 ?c1 q1 1000000 ?t1] r1
  obtain q2 p1' c1' where
    run2: "run_threads ((q1, ?t1), ?ths1) (rounds 3 1 1000000) =
             Inr ((q2, ?t2), [Consumer c0', Consumer c1', Producer p0', Producer p1'])"
    and m2: "moved 1000000 q1 ?p1 ?c1 q2 p1' c1'"
    by (auto simp: producer_init_def consumer_init_def)
  let ?ths2 = "[Consumer c0', Consumer c1', Producer p0', Producer p1']"
  have i2: "p_i p1' = 1000000" "p_num_items p1' = 1000000" "c_i c1' = 1000000"
    "c_num_items c1' = 1000000" "p_pc p1' = PLoadTail" "c_pc c1' = CLoadHead"
    "c_received c1' = map (producer_item 1 1000000) [0..<1000000]"
    using m2 by (simp_all add: moved_def ready_def producer_init_def consumer_init_def)
  have i1: "p_i p0' = 1000000" "p_num_items p0' = 1000000" "c_i c0' = 1000000"
    "c_num_items c0' = 1000000" "p_pc p0' = PLoadTail" "c_pc c0' = CLoadHead"
    "c_received c0' = map (producer_item 0 1000000) [0..<1000000]"
    using m1 by (simp_all add: moved_def ready_def producer_init_def consumer_init_def)
  have run3: "run_threads ((q2, ?t2), ?ths2) [0, 1, 2, 3] =
              Inr ((q2, ?t2), [Consumer (c0'\<lparr>c_pc := CReturned\<rparr>),
                 Consumer (c1'\<lparr>c_pc := CReturned\<rparr>), Producer (p0'\<lparr>p_pc := PReturned\<rparr>),
                 Producer (p1'\<lparr>p_pc := PReturned\<rparr>)])"
    using i1 i2 by (simp add: producer_step_def consumer_step_def)
  have t: "?t2 = - 1453759936"
    by (simp add: row_total)
  have "run_threads
       ((queue_init (Some (replicate QUEUE_SIZE v)) QUEUE_SIZE, 0),
        queue_threads NUM_PRODUCERS NUM_CONSUMERS ITEMS_PER_PRODUCER junk)
       in_turn_compiled =
     Inr ((q2, ?t2), [Consumer (c0'\<lparr>c_pc := CReturned\<rparr>),
                 Consumer (c1'\<lparr>c_pc := CReturned\<rparr>), Producer (p0'\<lparr>p_pc := PReturned\<rparr>),
                 Producer (p1'\<lparr>p_pc := PReturned\<rparr>)])"
    unfolding in_turn_compiled_def run_threads_append queue_threads_compiled
    using run1 run2 run3 by simp
  moreover have "c_received (c0'\<lparr>c_pc := CReturned\<rparr>) @ c_received (c1'\<lparr>c_pc := CReturned\<rparr>) =
    produced NUM_PRODUCERS ITEMS_PER_PRODUCER"
    unfolding produced_compiled using i1 i2 by simp
  ultimately show ?thesis unfolding t by force
qed

lemma queue_main_gen_finished:
  assumes "run_threads ((queue_init (qe_malloc env) C, 0), queue_threads P Q M (qe_junk env))
             sched = Inr ((q', tot), ths)"
    and "list_all thread_returned ths" and "(of_nat Q :: c_int) \<noteq> 0"
  shows "queue_main_gen C P Q M env sched =
           (queue_prologue P Q M env @
            [Printf ''Total time: %.6f seconds\<newline>'' [ArgDouble (qe_end env - qe_start env)],
             Printf ''Operations per second: %.2f million\<newline>''
               [ArgDouble (real_of_int (sint (of_nat M * of_nat P * 2 :: c_int)) /
                           (qe_end env - qe_start env) / 1000000)],
             Printf ''Final total: %d\<newline>'' [ArgInt tot],
             Printf ''Expected total: %d\<newline>'' [ArgInt (expected_total P M)]],
            Exit 0)"
  using assms by (simp add: queue_main_gen_def queue_report_def)

section \<open>The totals that main prints\<close>

text \<open>
  For every run of \<^verbatim>\<open>main\<close> in which all threads return: the
  observed total it prints is the 32-bit sum of the values that the calls of
  \<^verbatim>\<open>queue_dequeue\<close> delivered to the consumers, and the expected total it prints is
  the sum of all produced values modulo \<open>2 ^ 32\<close>. The loop that computes the
  expected total overflows the \<^verbatim>\<open>int\<close> exactly when that sum is at least
  \<open>2 ^ 31\<close>, and the printed expected total is the sum itself exactly when the sum is
  below \<open>2 ^ 31\<close>. When the consumers were delivered every produced value exactly
  once, in any order, the observed total equals the expected total and is the sum
  itself exactly when the sum is below \<open>2 ^ 31\<close>; and whatever was delivered, the
  observed total can be the sum itself only when the sum is below \<open>2 ^ 31\<close>. With
  the compiled-in parameters the sum is 2,000,001,000,000, above \<open>2 ^ 31 - 1\<close>: the
  loop overflows and the printed expected total is -1453759936.
\<close>

lemma queue_totals_32bit:
  assumes "run_threads ((queue_init (qe_malloc env) C, 0), queue_threads P Q M (qe_junk env))
             sched = Inr ((q', tot), ths)"
    and "list_all thread_returned ths" and "(of_nat Q :: c_int) \<noteq> 0"
  shows "queue_main_gen C P Q M env sched =
           (queue_prologue P Q M env @
            [Printf ''Total time: %.6f seconds\<newline>'' [ArgDouble (qe_end env - qe_start env)],
             Printf ''Operations per second: %.2f million\<newline>''
               [ArgDouble (real_of_int (sint (of_nat M * of_nat P * 2 :: c_int)) /
                           (qe_end env - qe_start env) / 1000000)],
             Printf ''Final total: %d\<newline>'' [ArgInt tot],
             Printf ''Expected total: %d\<newline>'' [ArgInt (expected_total P M)]],
            Exit 0) \<and>
         tot = consumer_total 0 (delivered ths) \<and>
         expected_total P M = of_nat (produced_sum P M) \<and>
         unat (expected_total P M) = produced_sum P M mod 2 ^ 32 \<and>
         (expected_total_checked P M = None \<longleftrightarrow> 2 ^ 31 \<le> produced_sum P M) \<and>
         (sint (expected_total P M) = int (produced_sum P M) \<longleftrightarrow> produced_sum P M < 2 ^ 31) \<and>
         (mset (delivered ths) = mset (produced P M) \<longrightarrow>
            tot = expected_total P M \<and>
            unat tot = produced_sum P M mod 2 ^ 32 \<and>
            (sint tot = int (produced_sum P M) \<longleftrightarrow> produced_sum P M < 2 ^ 31)) \<and>
         (sint tot = int (produced_sum P M) \<longrightarrow> produced_sum P M < 2 ^ 31) \<and>
         produced_sum NUM_PRODUCERS ITEMS_PER_PRODUCER = 2000001000000 \<and>
         2 ^ 31 - 1 < int (produced_sum NUM_PRODUCERS ITEMS_PER_PRODUCER) \<and>
         expected_total_checked NUM_PRODUCERS ITEMS_PER_PRODUCER = None \<and>
         sint (expected_total NUM_PRODUCERS ITEMS_PER_PRODUCER) = - 1453759936"
proof -
  let ?S = "produced_sum NUM_PRODUCERS ITEMS_PER_PRODUCER"
  note a = queue_main_gen_finished [OF assms]
  have b: "tot = consumer_total 0 (delivered ths)" using finished_total [OF assms(1,2)] .
  have c: "expected_total P M = of_nat (produced_sum P M)"
    by (simp only: expected_total_eq produced_sum_gauss)
  have d: "unat (expected_total P M) = produced_sum P M mod 2 ^ 32"
    unfolding c by (simp add: unat_of_nat)
  have e: "expected_total_checked P M = None \<longleftrightarrow> 2 ^ 31 \<le> produced_sum P M"
    by (simp add: expected_total_checked_eq produced_sum_gauss)
  have f: "sint (expected_total P M) = int (produced_sum P M) \<longleftrightarrow> produced_sum P M < 2 ^ 31"
    by (simp only: expected_total_eq produced_sum_gauss sint_of_nat_iff)
  have g: "mset (delivered ths) = mset (produced P M) \<longrightarrow>
            tot = expected_total P M \<and>
            unat tot = produced_sum P M mod 2 ^ 32 \<and>
            (sint tot = int (produced_sum P M) \<longleftrightarrow> produced_sum P M < 2 ^ 31)"
  proof
    assume m: "mset (delivered ths) = mset (produced P M)"
    have t: "tot = expected_total P M"
      unfolding b by (simp only: consumer_total_perm [OF m] expected_total_eq)
    show "tot = expected_total P M \<and>
            unat tot = produced_sum P M mod 2 ^ 32 \<and>
            (sint tot = int (produced_sum P M) \<longleftrightarrow> produced_sum P M < 2 ^ 31)"
      unfolding t using d f by blast
  qed
  have h: "sint tot = int (produced_sum P M) \<longrightarrow> produced_sum P M < 2 ^ 31"
  proof
    assume "sint tot = int (produced_sum P M)"
    moreover have "sint tot < 2 ^ 31" using sint_lt [of tot] by simp
    ultimately show "produced_sum P M < 2 ^ 31" by simp
  qed
  have i: "?S = 2000001000000" by (simp only: produced_sum_gauss gauss_compiled)
  have j: "2 ^ 31 - 1 < int ?S" unfolding i by simp
  have k: "expected_total_checked NUM_PRODUCERS ITEMS_PER_PRODUCER = None"
    by (simp add: expected_total_checked_eq gauss_compiled)
  have l: "sint (expected_total NUM_PRODUCERS ITEMS_PER_PRODUCER) = - 1453759936"
    by (simp add: expected_total_eq gauss_compiled)
  show ?thesis using a b c d e f g h i j k l by blast
qed

text \<open>
  The run of the compiled-in configuration under \<open>in_turn_compiled\<close> is such a
  run: every produced value is delivered once, and both printed totals are
  -1453759936.
\<close>

lemma in_turn_compiled_totals:
  "queue_main compiled_env in_turn_compiled =
     (queue_prologue NUM_PRODUCERS NUM_CONSUMERS ITEMS_PER_PRODUCER compiled_env @
      [Printf ''Total time: %.6f seconds\<newline>'' [ArgDouble 1],
       Printf ''Operations per second: %.2f million\<newline>'' [ArgDouble 4],
       Printf ''Final total: %d\<newline>'' [ArgInt (- 1453759936)],
       Printf ''Expected total: %d\<newline>'' [ArgInt (- 1453759936)]],
      Exit 0)"
proof -
  from run_in_turn_compiled [of 0 0] obtain q c0 c1 p0 p1 where
    r: "run_threads
          ((queue_init (qe_malloc compiled_env) QUEUE_SIZE, 0),
           queue_threads NUM_PRODUCERS NUM_CONSUMERS ITEMS_PER_PRODUCER (qe_junk compiled_env))
          in_turn_compiled =
        Inr ((q, - 1453759936), [Consumer c0, Consumer c1, Producer p0, Producer p1])"
    and f: "list_all thread_returned [Consumer c0, Consumer c1, Producer p0, Producer p1]"
    and d: "c_received c0 @ c_received c1 = produced NUM_PRODUCERS ITEMS_PER_PRODUCER"
    by (auto simp: compiled_env_def)
  have m: "mset (delivered [Consumer c0, Consumer c1, Producer p0, Producer p1]) =
           mset (produced NUM_PRODUCERS ITEMS_PER_PRODUCER)"
    unfolding d [symmetric] by simp
  note w = queue_totals_32bit [OF r f consumers_compiled]
  have e: "- 1453759936 = expected_total NUM_PRODUCERS ITEMS_PER_PRODUCER"
    using w m by blast
  have o: "real_of_int (sint (of_nat ITEMS_PER_PRODUCER * of_nat NUM_PRODUCERS * 2 :: c_int)) /
             (qe_end compiled_env - qe_start compiled_env) / 1000000 = 4"
    by (simp add: ITEMS_PER_PRODUCER_def NUM_PRODUCERS_def compiled_env_def)
  have t: "qe_end compiled_env - qe_start compiled_env = 1" by (simp add: compiled_env_def)
  have "queue_main compiled_env in_turn_compiled =
     (queue_prologue NUM_PRODUCERS NUM_CONSUMERS ITEMS_PER_PRODUCER compiled_env @
      [Printf ''Total time: %.6f seconds\<newline>'' [ArgDouble (qe_end compiled_env - qe_start compiled_env)],
       Printf ''Operations per second: %.2f million\<newline>''
         [ArgDouble (real_of_int (sint (of_nat ITEMS_PER_PRODUCER * of_nat NUM_PRODUCERS * 2 :: c_int)) /
                           (qe_end compiled_env - qe_start compiled_env) / 1000000)],
       Printf ''Final total: %d\<newline>'' [ArgInt (- 1453759936)],
       Printf ''Expected total: %d\<newline>''
         [ArgInt (expected_total NUM_PRODUCERS ITEMS_PER_PRODUCER)]],
      Exit 0)"
    unfolding queue_main_def using w by blast
  then show ?thesis unfolding o e [symmetric] unfolding t .
qed

section \<open>A stale tail: the window runs over slots that were never written\<close>

lemma run_overtaken:
  "run_threads
     ((queue_init (Some (replicate QUEUE_SIZE v)) QUEUE_SIZE, 0),
      queue_threads NUM_PRODUCERS NUM_CONSUMERS ITEMS_PER_PRODUCER junk) overtaken =
   Inr ((\<lparr>buffer = Some ((replicate QUEUE_SIZE v)[1 := 1000002, 0 := 1]),
          head = 2, tail = 1, size_q = QUEUE_SIZE\<rparr>, 2000003),
        [Consumer \<lparr>c_thread_id = 0, c_num_items = 1000000, c_i = 2, c_pc = CLoadHead,
                   c_head = 1, c_item = 1000002, c_received = [1000001, 1000002]\<rparr>,
         Consumer (consumer_init 1 1000000 junk),
         Producer \<lparr>p_thread_id = 0, p_num_items = 1000000, p_i = 1, p_pc = PLoadTail,
                   p_tail = 0, p_next_tail = 1\<rparr>,
         Producer \<lparr>p_thread_id = 1, p_num_items = 1000000, p_i = 2, p_pc = PLoadTail,
                   p_tail = 1, p_next_tail = 2\<rparr>])"
  by (simp add: overtaken_def queue_threads_compiled QUEUE_SIZE_def step_defs producer_item_def
      list_update_swap)

lemma run_overtaken_read:
  "run_threads
     ((queue_init (Some (replicate QUEUE_SIZE v)) QUEUE_SIZE, 0),
      queue_threads NUM_PRODUCERS NUM_CONSUMERS ITEMS_PER_PRODUCER junk)
     (overtaken @ [1, 1, 1, 1]) =
   Inr ((\<lparr>buffer = Some ((replicate QUEUE_SIZE v)[1 := 1000002, 0 := 1]),
          head = 3, tail = 1, size_q = QUEUE_SIZE\<rparr>, 2000003),
        [Consumer \<lparr>c_thread_id = 0, c_num_items = 1000000, c_i = 2, c_pc = CLoadHead,
                   c_head = 1, c_item = 1000002, c_received = [1000001, 1000002]\<rparr>,
         Consumer \<lparr>c_thread_id = 1, c_num_items = 1000000, c_i = 0, c_pc = CAdd,
                   c_head = 2, c_item = v, c_received = [v]\<rparr>,
         Producer \<lparr>p_thread_id = 0, p_num_items = 1000000, p_i = 1, p_pc = PLoadTail,
                   p_tail = 0, p_next_tail = 1\<rparr>,
         Producer \<lparr>p_thread_id = 1, p_num_items = 1000000, p_i = 2, p_pc = PLoadTail,
                   p_tail = 1, p_next_tail = 2\<rparr>])"
  unfolding run_threads_append run_overtaken
  by (simp add: QUEUE_SIZE_def step_defs)

lemma resident_overtaken:
  "resident \<lparr>buffer = Some ((replicate QUEUE_SIZE v)[1 := 1000002, 0 := 1]),
          head = 2, tail = 1, size_q = QUEUE_SIZE\<rparr> = 999999"
  by (simp add: resident_def QUEUE_SIZE_def)

section \<open>One producer and one consumer: the payload is written before the tail is published\<close>

text \<open>
  With one producer and one consumer, in every state that a schedule reaches: when the
  producer is about to store the new \<^verbatim>\<open>tail\<close>, the slot at the old \<^verbatim>\<open>tail\<close>
  already holds the item and the store changes \<^verbatim>\<open>tail\<close> only; no other step of the
  producer and no step of the consumer changes \<^verbatim>\<open>tail\<close>; and every slot from
  \<^verbatim>\<open>head\<close> up to \<^verbatim>\<open>tail\<close> holds the item that the producer wrote there.
\<close>

lemma spsc_payload_before_publish:
  assumes "0 < C" "C < 2 ^ 31" "length cells = C"
    and "run_threads ((queue_init (Some cells) C, 0), spsc_threads tid n junk) sched
           = Inr ((q, tot), ths)"
  shows "\<exists>b p c. ths = [Producer p, Consumer c] \<and> buffer q = Some b \<and> length b = C \<and>
           (p_pc p = PStore \<longrightarrow>
              b ! tail q = producer_item tid n (p_i p) \<and>
              producer_step q p =
                Inr (q\<lparr>tail := (tail q + 1) mod C\<rparr>, p\<lparr>p_i := p_i p + 1, p_pc := PLoadTail\<rparr>)) \<and>
           (p_pc p \<noteq> PStore \<longrightarrow>
              (\<forall>q' p'. producer_step q p = Inr (q', p') \<longrightarrow> tail q' = tail q)) \<and>
           (\<forall>q' tot' c'. consumer_step (q, tot) c = Inr ((q', tot'), c') \<longrightarrow>
              tail q' = tail q \<and> buffer q' = buffer q) \<and>
           resident q = p_i p - length (c_received c) \<and>
           (\<forall>j < resident q.
              b ! ((head q + j) mod C) = producer_item tid n (length (c_received c) + j))"
proof -
  from spsc_run [OF assms(1,3), of tid n junk sched] assms(4) obtain p c where
    ths: "ths = [Producer p, Consumer c]" and inv: "spsc_inv C tid n q tot p c" by auto
  let ?it = "producer_item tid n"
  from inv have Q: "queue_rel C ?it q (p_i p) (deq_count c)"
    and P: "producer_rel C tid n q (deq_count c) p" by (simp_all add: spsc_inv_def)
  from Q obtain b where b: "buffer q = Some b" "length b = C"
    and t: "tail q = p_i p mod C" by (auto simp: queue_rel_def)
  have len: "length (c_received c) = deq_count c" using spsc_inv_received(3) [OF inv] .
  have res: "resident q = p_i p - length (c_received c)"
    using resident_queue_rel [OF Q] len by simp
  have win: "\<forall>j < resident q. b ! ((head q + j) mod C) = ?it (length (c_received c) + j)"
    using window_slots [OF Q b(1)] res len by simp
  have st: "p_pc p = PStore \<longrightarrow>
              b ! tail q = ?it (p_i p) \<and>
              producer_step q p =
                Inr (q\<lparr>tail := (tail q + 1) mod C\<rparr>, p\<lparr>p_i := p_i p + 1, p_pc := PLoadTail\<rparr>)"
    using P b t by (auto simp: producer_rel_def producer_step_def)
  have nst: "p_pc p \<noteq> PStore \<longrightarrow>
              (\<forall>q' p'. producer_step q p = Inr (q', p') \<longrightarrow> tail q' = tail q)"
    using producer_step_tail by blast
  have cs: "\<forall>q' tot' c'. consumer_step (q, tot) c = Inr ((q', tot'), c') \<longrightarrow>
              tail q' = tail q \<and> buffer q' = buffer q"
    using consumer_step_frame by blast
  show ?thesis using ths b st nst cs res win by blast
qed

section \<open>The counter benchmark never finishes its first scenario\<close>

text \<open>
  The workers of the LD/ST-EX scenario have \<^verbatim>\<open>use_lse = 0\<close>: a run of them has a
  result only when no worker took a step, and then no worker has returned. So
  \<^verbatim>\<open>main\<close> of the counter benchmark returns 1 or does not return.
\<close>

lemma run_workers_no_lse:
  assumes "run_workers (worker_args T I 0) sched s = Some s'"
  shows "s' = s"
  using assms
proof (induction sched arbitrary: s)
  case Nil
  then show ?case by simp
next
  case (Cons k sched)
  obtain counter idx where s: "s = (counter, idx)" by (cases s)
  show ?case
  proof (cases "k < length (worker_args T I 0) \<and> k < length idx")
    case True
    then have "k < T" by (simp add: length_worker_args)
    then have "atomic_increment_thread_step (worker_args T I 0 ! k) (counter, idx ! k) = None"
      by (simp add: worker_args_nth atomic_increment_thread_step_def)
    then show ?thesis using Cons.prems True unfolding s by simp
  next
    case False
    with Cons.prems have "run_workers (worker_args T I 0) sched (counter, idx) = Some s'"
      unfolding s by simp
    then show ?thesis unfolding s by (rule Cons.IH)
  qed
qed

lemma lse_main_Exit:
  assumes "lse_main env scheds = (out, Exit k)"
  shows "k = 1 \<and> out = banner (le_aarch64 env) (le_feature_atomics env) @ [Perror ''malloc'']"
proof (cases "le_malloc_ldstex env = None \<or> le_malloc_lse env = None")
  case True
  then show ?thesis using assms by (auto simp: lse_main_def)
next
  case False
  let ?args = "worker_args NUM_THREADS (ITERATIONS div int NUM_THREADS) 0"
  have n: "\<not> all_returned ?args (snd (race_init NUM_THREADS))"
    by (simp add: all_returned_def race_init_def worker_args_def NUM_THREADS_def ITERATIONS_def
        worker_returned_def upt_rec numeral_eq_Suc)
  show ?thesis
  proof (cases "run_workers ?args (fst scheds) (race_init NUM_THREADS)")
    case None
    then show ?thesis using assms False by (simp add: lse_main_def)
  next
    case (Some s')
    then have e: "s' = race_init NUM_THREADS" by (rule run_workers_no_lse)
    obtain c0 idx0 where r: "race_init NUM_THREADS = (c0, idx0)"
      by (cases "race_init NUM_THREADS")
    have a: "\<not> all_returned ?args idx0" using n r by simp
    have run: "run_workers ?args (fst scheds) (race_init NUM_THREADS) = Some (c0, idx0)"
      using Some e r by simp
    show ?thesis using assms False run a by (simp add: lse_main_def Let_def)
  qed
qed


section \<open>The claims\<close>


text \<open>
  C1, as the claim states it: for all \<open>T \<ge> 1\<close> and \<open>I \<ge> 1\<close> the counter, read as
  the \<^verbatim>\<open>int\<close> it is, equals \<open>T * I\<close> once all workers of the fetch-and-add
  strategy have returned. It fails for two workers with \<open>2 ^ 30\<close> iterations each:
  the counter is a 32-bit \<^verbatim>\<open>int\<close> and \<open>2 ^ 31\<close> is not a value of it.
\<close>

theorem counter_exact_counterexample:
  "\<not> (\<forall>T I sched counter idx.
        1 \<le> T \<and> 1 \<le> I \<and> I < 2 ^ 31 \<and>
        run_workers (worker_args T I 1) sched (race_init T) = Some (counter, idx) \<and>
        all_returned (worker_args T I 1) idx
        \<longrightarrow> sint counter = int T * I)"
proof
  assume a: "\<forall>T I sched counter idx.
        1 \<le> T \<and> 1 \<le> I \<and> I < 2 ^ 31 \<and>
        run_workers (worker_args T I 1) sched (race_init T) = Some (counter, idx) \<and>
        all_returned (worker_args T I 1) idx
        \<longrightarrow> sint counter = int T * I"
  let ?n = "2 ^ 30 :: nat"
  have one: "(1::int) \<noteq> 0" by simp
  have r: "run_workers (worker_args 2 (int ?n) 1) (one_by_one 2 ?n) (race_init 2) =
             Some (of_nat (2 * ?n), replicate 2 (int ?n))"
    using race_completes(1) [OF one, of 2 ?n] .
  have f: "all_returned (worker_args 2 (int ?n) 1) (replicate 2 (int ?n))"
    using race_completes(2) [OF one, of 2 ?n] .
  have "sint (of_nat (2 * ?n) :: c_int) = int 2 * int ?n"
    using a [rule_format, of 2 "int ?n" "one_by_one 2 ?n" "of_nat (2 * ?n)" "replicate 2 (int ?n)"]
      r f by simp
  then show False by simp
qed

text \<open>
  C1, amended. For every number of workers \<open>T\<close> and every iteration count
  \<open>I \<ge> 0\<close>, under every schedule, once all workers of the built-in atomic
  fetch-and-add strategy have returned the shared counter equals \<open>T * I\<close> modulo
  \<open>2 ^ 32\<close>, and the \<^verbatim>\<open>int\<close> it holds equals \<open>T * I\<close> exactly when
  \<open>T * I < 2 ^ 31\<close>. (The retry loop in inline assembly has no model, see
  \<open>atomic_increment_thread_step\<close>; nothing is stated about it.)
\<close>

theorem counter_fetch_add_total:
  assumes "lse \<noteq> 0" "0 \<le> I"
    and "run_workers (worker_args T I lse) sched (race_init T) = Some (counter, idx)"
    and "all_returned (worker_args T I lse) idx"
  shows "counter = of_int (int T * I) \<and>
         uint counter = (int T * I) mod 2 ^ 32 \<and>
         (sint counter = int T * I \<longleftrightarrow> int T * I < 2 ^ 31)"
proof -
  have c: "counter = of_int (int T * I)" using counter_final [OF assms] .
  have nn: "0 \<le> int T * I" using assms(2) by simp
  have "sint counter = int T * I \<longleftrightarrow> - (2 ^ 31) \<le> int T * I \<and> int T * I < 2 ^ 31"
    unfolding c by (rule sint_of_int_iff)
  moreover have "- (2 ^ 31) \<le> int T * I" using nn by (rule order_trans [rotated]) simp
  moreover have "uint counter = (int T * I) mod 2 ^ 32"
    unfolding c by (subst uint_word_of_int) simp
  ultimately show ?thesis using c by blast
qed

theorem counter_fetch_add_total_witness:
  "run_workers (worker_args 2 3 1) [0, 1, 1, 0, 1, 0] (race_init 2) = Some (6, [3, 3]) \<and>
   all_returned (worker_args 2 3 1) [3, 3] \<and> sint (6 :: c_int) = 6"
proof -
  have r: "run_workers (worker_args 2 3 1) [0, 1, 1, 0, 1, 0] (race_init 2) = Some (6, [3, 3])"
    by (simp add: worker_args_def race_init_def atomic_increment_thread_step_def upt_rec
        numeral_2_eq_2)
  have f: "all_returned (worker_args 2 3 1) [3, 3]"
    by (simp add: all_returned_def worker_args_def worker_returned_def upt_rec numeral_2_eq_2)
  have "sint (6 :: c_int) = int 2 * 3 \<longleftrightarrow> int 2 * 3 < (2 ^ 31 :: int)"
    using counter_fetch_add_total [of 1 3 2 "[0, 1, 1, 0, 1, 0]" 6 "[3, 3]"] r f by simp
  then have "sint (6 :: c_int) = 6" by simp
  then show ?thesis using r f by blast
qed

text \<open>
  C2. \<^verbatim>\<open>main\<close> runs two producers and two consumers, and \<^verbatim>\<open>queue_enqueue\<close>
  claims a slot by an atomic load of \<^verbatim>\<open>tail\<close> followed, two accesses later, by an
  atomic store: there is no compare-and-swap. With the compiled-in parameters, when
  the two producers (threads 2 and 3) both load \<^verbatim>\<open>tail\<close> before either stores it,
  both calls return 1, both write slot 0, \<^verbatim>\<open>tail\<close> ends at 1 and the queue holds
  one item: the value 1 of producer 0 is lost. In the small instance, after the
  schedule \<open>lost_update\<close> has lost an item in this way, the second consumer waits
  for an item that never comes: however the schedule continues, \<^verbatim>\<open>main\<close> is still
  waiting in \<^verbatim>\<open>pthread_join\<close>.
\<close>

theorem two_producers_lose_an_item:
  "run_threads
     ((queue_init (Some (replicate QUEUE_SIZE 0)) QUEUE_SIZE, 0),
      queue_threads NUM_PRODUCERS NUM_CONSUMERS ITEMS_PER_PRODUCER junk)
     [2, 2, 3, 3, 2, 2, 3, 3]
   = Inr ((\<lparr>buffer = Some ((replicate QUEUE_SIZE 0)[0 := 1000001]), head = 0, tail = 1,
            size_q = QUEUE_SIZE\<rparr>, 0),
          [Consumer (consumer_init 0 1000000 junk), Consumer (consumer_init 1 1000000 junk),
           Producer \<lparr>p_thread_id = 0, p_num_items = 1000000, p_i = 1, p_pc = PLoadTail,
                     p_tail = 0, p_next_tail = 1\<rparr>,
           Producer \<lparr>p_thread_id = 1, p_num_items = 1000000, p_i = 1, p_pc = PLoadTail,
                     p_tail = 0, p_next_tail = 1\<rparr>]) \<and>
   resident \<lparr>buffer = Some ((replicate QUEUE_SIZE 0)[0 := 1000001]), head = 0, tail = 1,
              size_q = QUEUE_SIZE\<rparr> = 1 \<and>
   producer_item 0 1000000 0 = 1 \<and> producer_item 1 1000000 0 = 1000001 \<and>
   queue_main_gen 4 2 2 1 race_env (lost_update @ sched) =
     (queue_prologue 2 2 1 race_env, Waiting)"
proof -
  have "run_threads
     ((queue_init (Some (replicate QUEUE_SIZE 0)) QUEUE_SIZE, 0),
      queue_threads NUM_PRODUCERS NUM_CONSUMERS ITEMS_PER_PRODUCER junk)
     [2, 2, 3, 3, 2, 2, 3, 3]
   = Inr ((\<lparr>buffer = Some ((replicate QUEUE_SIZE 0)[0 := 1000001]), head = 0, tail = 1,
            size_q = QUEUE_SIZE\<rparr>, 0),
          [Consumer (consumer_init 0 1000000 junk), Consumer (consumer_init 1 1000000 junk),
           Producer \<lparr>p_thread_id = 0, p_num_items = 1000000, p_i = 1, p_pc = PLoadTail,
                     p_tail = 0, p_next_tail = 1\<rparr>,
           Producer \<lparr>p_thread_id = 1, p_num_items = 1000000, p_i = 1, p_pc = PLoadTail,
                     p_tail = 0, p_next_tail = 1\<rparr>])"
    by (simp add: queue_threads_compiled QUEUE_SIZE_def step_defs producer_item_def)
  moreover have "resident \<lparr>buffer = Some ((replicate QUEUE_SIZE 0)[0 := 1000001]), head = 0,
              tail = 1, size_q = QUEUE_SIZE\<rparr> = 1"
    by (simp add: QUEUE_SIZE_def resident_def)
  moreover have "producer_item 0 1000000 0 = 1" "producer_item 1 1000000 0 = 1000001"
    by (simp_all add: producer_item_def)
  ultimately show ?thesis using lost_update_waits by blast
qed

text \<open>
  C3. For a queue of capacity \<open>C\<close>, after every sequence of calls starting from the
  empty queue no call faults, the number of resident elements \<open>(tail - head) mod C\<close>
  is the number of successful enqueues minus the number of successful dequeues and
  is at most \<open>C - 1\<close>; \<^verbatim>\<open>queue_enqueue\<close> returns 0 exactly when
  \<open>(tail + 1) mod C = head\<close>; \<^verbatim>\<open>queue_dequeue\<close> returns 0 exactly when
  \<open>head = tail\<close>; and after an enqueue has failed on the full queue, one successful
  dequeue makes the next enqueue succeed.
\<close>

theorem queue_capacity_invariant:
  assumes C: "0 < C" "C < 2 ^ 31" "length cells = C"
  shows "\<exists>q e d. run_ops (queue_init (Some cells) C) ops = Inr (q, e, d) \<and>
           wf_queue q \<and> size_q q = C \<and>
           resident q + d = e \<and> resident q \<le> C - 1 \<and>
           (\<forall>x. (\<exists>q'. queue_enqueue q x = Inr (q', 0)) \<longleftrightarrow> (tail q + 1) mod C = head q) \<and>
           (\<forall>v. (\<exists>q' v'. queue_dequeue q v = Inr (q', v', 0)) \<longleftrightarrow> head q = tail q) \<and>
           (\<forall>x v q' v' y. queue_enqueue q x = Inr (q, 0) \<longrightarrow>
                queue_dequeue q v = Inr (q', v', 1) \<longrightarrow>
                (\<exists>q''. queue_enqueue q' y = Inr (q'', 1)))"
proof -
  have wf0: "wf_queue (queue_init (Some cells) C)" using C by (rule wf_queue_init)
  from run_ops_wf [OF wf0, of ops] obtain q e d where
    r: "run_ops (queue_init (Some cells) C) ops = Inr (q, e, d)" "wf_queue q"
       "size_q q = size_q (queue_init (Some cells) C)"
       "resident q + d = resident (queue_init (Some cells) C) + e" by blast
  have sz: "size_q q = C" using r(3) by (simp add: queue_init_def)
  have cnt: "resident q + d = e" using r(4) by (simp add: resident_init)
  have le: "resident q \<le> C - 1" using resident_less [OF r(2)] sz by simp
  have enq: "\<forall>x. (\<exists>q'. queue_enqueue q x = Inr (q', 0)) \<longleftrightarrow> (tail q + 1) mod C = head q"
    using sz by (simp add: queue_enqueue_wf [OF r(2)])
  have deq: "\<forall>v. (\<exists>q' v'. queue_dequeue q v = Inr (q', v', 0)) \<longleftrightarrow> head q = tail q"
    by (simp add: queue_dequeue_wf [OF r(2)])
  have nxt: "\<forall>x v q' v' y. queue_enqueue q x = Inr (q, 0) \<longrightarrow>
                queue_dequeue q v = Inr (q', v', 1) \<longrightarrow>
                (\<exists>q''. queue_enqueue q' y = Inr (q'', 1))"
    using next_enqueue_succeeds [OF r(2)] by blast
  show ?thesis using r(1,2) sz cnt le enq deq nxt by blast
qed


theorem queue_capacity_invariant_witness:
  "run_ops (queue_init (Some [0, 0, 0, 0]) 4) [Enqueue 1, Enqueue 2, Enqueue 3, Enqueue 4]
     = Inr (\<lparr>buffer = Some [1, 2, 3, 0], head = 0, tail = 3, size_q = 4\<rparr>, 3, 0) \<and>
   resident \<lparr>buffer = Some [1, 2, 3, 0], head = 0, tail = 3, size_q = 4\<rparr> = 3 \<and>
   queue_enqueue \<lparr>buffer = Some [1, 2, 3, 0], head = 0, tail = 3, size_q = 4\<rparr> 4
     = Inr (\<lparr>buffer = Some [1, 2, 3, 0], head = 0, tail = 3, size_q = 4\<rparr>, 0) \<and>
   queue_dequeue \<lparr>buffer = Some [1, 2, 3, 0], head = 0, tail = 3, size_q = 4\<rparr> 9
     = Inr (\<lparr>buffer = Some [1, 2, 3, 0], head = 1, tail = 3, size_q = 4\<rparr>, 1, 1) \<and>
   (\<exists>q''. queue_enqueue \<lparr>buffer = Some [1, 2, 3, 0], head = 1, tail = 3, size_q = 4\<rparr> 4
     = Inr (q'', 1))"
proof -
  have h: "(0::nat) < 4" "(4::nat) < 2 ^ 31" "length [0, 0, 0, 0 :: c_int] = 4" by simp_all
  have r: "run_ops (queue_init (Some [0, 0, 0, 0]) 4) [Enqueue 1, Enqueue 2, Enqueue 3, Enqueue 4]
     = Inr (\<lparr>buffer = Some [1, 2, 3, 0], head = 0, tail = 3, size_q = 4\<rparr>, 3, 0)"
    by (simp add: queue_init_def queue_enqueue_def)
  have e: "queue_enqueue \<lparr>buffer = Some [1, 2, 3, 0], head = 0, tail = 3, size_q = 4\<rparr> 4
     = Inr (\<lparr>buffer = Some [1, 2, 3, 0], head = 0, tail = 3, size_q = 4\<rparr>, 0)"
    by (simp add: queue_enqueue_def)
  have d: "queue_dequeue \<lparr>buffer = Some [1, 2, 3, 0], head = 0, tail = 3, size_q = 4\<rparr> 9
     = Inr (\<lparr>buffer = Some [1, 2, 3, 0], head = 1, tail = 3, size_q = 4\<rparr>, 1, 1)"
    by (simp add: queue_dequeue_def)
  from queue_capacity_invariant
    [OF h, of "[Enqueue 1, Enqueue 2, Enqueue 3, Enqueue 4]"]
  obtain q e' d' where
    a: "run_ops (queue_init (Some [0, 0, 0, 0]) 4) [Enqueue 1, Enqueue 2, Enqueue 3, Enqueue 4]
          = Inr (q, e', d')"
    and cnt: "resident q + d' = e'"
    and nxt: "\<forall>x v q' v' y. queue_enqueue q x = Inr (q, 0) \<longrightarrow>
                queue_dequeue q v = Inr (q', v', 1) \<longrightarrow>
                (\<exists>q''. queue_enqueue q' y = Inr (q'', 1))"
    by blast
  have q: "q = \<lparr>buffer = Some [1, 2, 3, 0], head = 0, tail = 3, size_q = 4\<rparr>"
    and c: "e' = 3" "d' = 0"
    using a unfolding r by simp_all
  have res: "resident \<lparr>buffer = Some [1, 2, 3, 0], head = 0, tail = 3, size_q = 4\<rparr> = 3"
    using cnt c q by simp
  have "\<exists>q''. queue_enqueue
      \<lparr>buffer = Some [1, 2, 3, 0], head = 1, tail = 3, size_q = 4\<rparr> 4 = Inr (q'', 1)"
    using nxt [rule_format, OF e [folded q] d [folded q]] .
  with r res e d show ?thesis by blast
qed



text \<open>
  C5, at the compiled-in configuration of \<^verbatim>\<open>main\<close> (two producers and two
  consumers), on a buffer whose cells all hold \<open>v\<close>. Under the schedule
  \<open>overtaken\<close> producer 0 stores its stale \<^verbatim>\<open>tail\<close> 1 when \<^verbatim>\<open>head\<close> is
  already 2. The two indices then make 999,999 slots resident, although slots 0 and 1
  are the only ones that have ever been written; and the next call of
  \<^verbatim>\<open>queue_dequeue\<close>, by consumer 1, finds the queue not empty and delivers \<open>v\<close>,
  the content that slot 2 had before any write.
\<close>

theorem consumer_reads_unwritten_slot:
  "run_threads
     ((queue_init (Some (replicate QUEUE_SIZE v)) QUEUE_SIZE, 0),
      queue_threads NUM_PRODUCERS NUM_CONSUMERS ITEMS_PER_PRODUCER junk) overtaken =
   Inr ((\<lparr>buffer = Some ((replicate QUEUE_SIZE v)[1 := 1000002, 0 := 1]),
          head = 2, tail = 1, size_q = QUEUE_SIZE\<rparr>, 2000003),
        [Consumer \<lparr>c_thread_id = 0, c_num_items = 1000000, c_i = 2, c_pc = CLoadHead,
                   c_head = 1, c_item = 1000002, c_received = [1000001, 1000002]\<rparr>,
         Consumer (consumer_init 1 1000000 junk),
         Producer \<lparr>p_thread_id = 0, p_num_items = 1000000, p_i = 1, p_pc = PLoadTail,
                   p_tail = 0, p_next_tail = 1\<rparr>,
         Producer \<lparr>p_thread_id = 1, p_num_items = 1000000, p_i = 2, p_pc = PLoadTail,
                   p_tail = 1, p_next_tail = 2\<rparr>]) \<and>
   resident \<lparr>buffer = Some ((replicate QUEUE_SIZE v)[1 := 1000002, 0 := 1]),
          head = 2, tail = 1, size_q = QUEUE_SIZE\<rparr> = 999999 \<and>
   run_threads
     ((queue_init (Some (replicate QUEUE_SIZE v)) QUEUE_SIZE, 0),
      queue_threads NUM_PRODUCERS NUM_CONSUMERS ITEMS_PER_PRODUCER junk)
     (overtaken @ [1, 1, 1, 1]) =
   Inr ((\<lparr>buffer = Some ((replicate QUEUE_SIZE v)[1 := 1000002, 0 := 1]),
          head = 3, tail = 1, size_q = QUEUE_SIZE\<rparr>, 2000003),
        [Consumer \<lparr>c_thread_id = 0, c_num_items = 1000000, c_i = 2, c_pc = CLoadHead,
                   c_head = 1, c_item = 1000002, c_received = [1000001, 1000002]\<rparr>,
         Consumer \<lparr>c_thread_id = 1, c_num_items = 1000000, c_i = 0, c_pc = CAdd,
                   c_head = 2, c_item = v, c_received = [v]\<rparr>,
         Producer \<lparr>p_thread_id = 0, p_num_items = 1000000, p_i = 1, p_pc = PLoadTail,
                   p_tail = 0, p_next_tail = 1\<rparr>,
         Producer \<lparr>p_thread_id = 1, p_num_items = 1000000, p_i = 2, p_pc = PLoadTail,
                   p_tail = 1, p_next_tail = 2\<rparr>])"
  by (intro conjI run_overtaken resident_overtaken run_overtaken_read)

text \<open>
  C6. \<^verbatim>\<open>queue_enqueue\<close> and \<^verbatim>\<open>queue_dequeue\<close> are straight-line code, so they
  return. On a full queue \<^verbatim>\<open>queue_enqueue\<close> returns 0 and on an empty queue
  \<^verbatim>\<open>queue_dequeue\<close> returns 0, and in both cases the buffer, \<^verbatim>\<open>head\<close>,
  \<^verbatim>\<open>tail\<close>, \<^verbatim>\<open>size\<close> and the caller's \<^verbatim>\<open>item\<close> are what they were.
\<close>

theorem queue_nonblocking_failure:
  assumes "wf_queue q"
  shows "((tail q + 1) mod size_q q = head q \<longrightarrow> queue_enqueue q x = Inr (q, 0)) \<and>
         (head q = tail q \<longrightarrow> queue_dequeue q v = Inr (q, v, 0))"
  using assms by (simp add: queue_enqueue_wf queue_dequeue_wf)

theorem queue_nonblocking_failure_witness:
  "queue_enqueue \<lparr>buffer = Some [5, 6, 7, 0], head = 0, tail = 3, size_q = 4\<rparr> 8
     = Inr (\<lparr>buffer = Some [5, 6, 7, 0], head = 0, tail = 3, size_q = 4\<rparr>, 0) \<and>
   queue_dequeue (queue_init (Some [5, 6, 7, 0]) 4) 9
     = Inr (queue_init (Some [5, 6, 7, 0]) 4, 9, 0)"
  using queue_nonblocking_failure
    [of "\<lparr>buffer = Some [5, 6, 7, 0], head = 0, tail = 3, size_q = 4\<rparr>" 8 9]
    queue_nonblocking_failure [of "queue_init (Some [5, 6, 7, 0]) 4" 8 9]
  by (simp add: wf_queue_def queue_init_def)

text \<open>
  C7, as the claim states it: for all \<open>P \<ge> 1\<close> and \<open>M\<close> the expected total that
  \<^verbatim>\<open>main\<close> computes, read as the \<^verbatim>\<open>int\<close> it is, equals the sum of all produced
  values. It fails at the compiled-in parameters, 2 producers with 1,000,000 items.
\<close>

theorem expected_total_exact_counterexample:
  "\<not> (\<forall>P M. 1 \<le> P \<longrightarrow>
        sint (expected_total P M) = int (produced_sum P M) \<and>
        produced_sum P M = P * M * (P * M + 1) div 2)"
proof
  assume "\<forall>P M. 1 \<le> P \<longrightarrow>
        sint (expected_total P M) = int (produced_sum P M) \<and>
        produced_sum P M = P * M * (P * M + 1) div 2"
  then have "sint (expected_total 2 1000000) = int (produced_sum 2 1000000)" by simp
  then have "sint (of_nat (gauss 2 1000000) :: c_int) = int (gauss 2 1000000)"
    by (simp only: expected_total_eq produced_sum_gauss)
  then have "gauss 2 1000000 < 2 ^ 31" by (simp only: sint_of_nat_iff)
  then show False by (simp add: gauss_def)
qed

text \<open>
  C7, amended. Item \<open>i\<close> of producer \<open>p\<close> is \<open>p * M + i + 1\<close> as a 32-bit
  value. For all \<open>P\<close> and \<open>M\<close> the expected total that \<^verbatim>\<open>main\<close>
  computes equals the sum of all produced values modulo \<open>2 ^ 32\<close>; that sum is
  \<open>P * M * (P * M + 1) div 2\<close>; the \<^verbatim>\<open>int\<close> equals the sum itself when the sum is
  below \<open>2 ^ 31\<close>; for 2 producers with 1,000 items each it is 2,001,000.
\<close>

theorem expected_total_is_sum:
  "producer_item p M i = of_nat (produced_value p M i) \<and>
   expected_total P M = of_nat (produced_sum P M) \<and>
   unat (expected_total P M) = produced_sum P M mod 2 ^ 32 \<and>
   produced_sum P M = P * M * (P * M + 1) div 2 \<and>
   (produced_sum P M < 2 ^ 31 \<longrightarrow> sint (expected_total P M) = int (produced_sum P M)) \<and>
   produced_sum 2 1000 = 2001000 \<and>
   sint (expected_total 2 1000) = 2001000"
proof -
  have e: "expected_total P M = of_nat (produced_sum P M)"
    by (simp only: expected_total_eq produced_sum_gauss)
  have u: "unat (expected_total P M) = produced_sum P M mod 2 ^ 32"
    unfolding e by (simp add: unat_of_nat)
  have g: "produced_sum P M = P * M * (P * M + 1) div 2"
    by (simp only: produced_sum_gauss gauss_def)
  have s: "produced_sum P M < 2 ^ 31 \<longrightarrow> sint (expected_total P M) = int (produced_sum P M)"
    unfolding e by (simp add: sint_of_nat_iff)
  have k: "produced_sum 2 1000 = 2001000" by (simp add: produced_sum_gauss gauss_def)
  have "produced_sum 2 1000 < 2 ^ 31" unfolding k by simp
  then have "sint (expected_total 2 1000) = int (produced_sum 2 1000)"
    by (simp only: expected_total_eq produced_sum_gauss sint_of_nat_iff)
  then have c: "sint (expected_total 2 1000) = 2001000" by (simp add: k)
  have v: "producer_item p M i = of_nat (produced_value p M i)"
    by (simp add: producer_item_def produced_value_def)
  show ?thesis using v e u g s k c by blast
qed

theorem expected_total_is_sum_witness:
  "produced_sum 3 4 = 78 \<and> sint (expected_total 3 4) = 78"
proof -
  have k: "produced_sum 3 4 = 78" using expected_total_is_sum [where P = 3 and M = 4] by simp
  then have "produced_sum 3 4 < 2 ^ 31" by simp
  then have "sint (expected_total 3 4) = int (produced_sum 3 4)"
    using expected_total_is_sum [where P = 3 and M = 4] by blast
  then show ?thesis using k by simp
qed

text \<open>
  C8, at the compiled-in configuration of \<^verbatim>\<open>main\<close>. The claim has the observed
  total that \<^verbatim>\<open>main\<close> prints equal to the sum of all produced values,
  2,000,001,000,000, modulo \<open>2 ^ 32\<close>. In the run under the schedule
  \<open>double_read_compiled\<close> both consumers take the first item and the last item
  stays in the queue: the run completes, returns 0 and prints the observed total
  -1455759935, which is not that sum modulo \<open>2 ^ 32\<close>, next to the expected total
  -1453759936, which is.
\<close>

theorem observed_total_not_the_sum:
  "queue_main compiled_env double_read_compiled =
     (queue_prologue NUM_PRODUCERS NUM_CONSUMERS ITEMS_PER_PRODUCER compiled_env @
      [Printf ''Total time: %.6f seconds\<newline>'' [ArgDouble 1],
       Printf ''Operations per second: %.2f million\<newline>'' [ArgDouble 4],
       Printf ''Final total: %d\<newline>'' [ArgInt (- 1455759935)],
       Printf ''Expected total: %d\<newline>'' [ArgInt (- 1453759936)]],
      Exit 0) \<and>
   produced_sum NUM_PRODUCERS ITEMS_PER_PRODUCER = 2000001000000 \<and>
   unat (- 1455759935 :: c_int) \<noteq> 2000001000000 mod 2 ^ 32 \<and>
   unat (- 1453759936 :: c_int) = 2000001000000 mod 2 ^ 32"
proof -
  from run_double_read_compiled [of 0 0] obtain q c0 c1 p0 p1 where
    r: "run_threads
          ((queue_init (qe_malloc compiled_env) QUEUE_SIZE, 0),
           queue_threads NUM_PRODUCERS NUM_CONSUMERS ITEMS_PER_PRODUCER (qe_junk compiled_env))
          double_read_compiled =
        Inr ((q, - 1455759935), [Consumer c0, Consumer c1, Producer p0, Producer p1])"
    and f: "list_all thread_returned [Consumer c0, Consumer c1, Producer p0, Producer p1]"
    by (auto simp: compiled_env_def)
  have e: "expected_total NUM_PRODUCERS ITEMS_PER_PRODUCER = - 1453759936"
    by (simp add: expected_total_eq gauss_compiled)
  have o: "real_of_int (sint (of_nat ITEMS_PER_PRODUCER * of_nat NUM_PRODUCERS * 2 :: c_int)) /
             (qe_end compiled_env - qe_start compiled_env) / 1000000 = 4"
    by (simp add: ITEMS_PER_PRODUCER_def NUM_PRODUCERS_def compiled_env_def)
  have t: "qe_end compiled_env - qe_start compiled_env = 1" by (simp add: compiled_env_def)
  have a: "queue_main compiled_env double_read_compiled =
     (queue_prologue NUM_PRODUCERS NUM_CONSUMERS ITEMS_PER_PRODUCER compiled_env @
      [Printf ''Total time: %.6f seconds\<newline>'' [ArgDouble 1],
       Printf ''Operations per second: %.2f million\<newline>'' [ArgDouble 4],
       Printf ''Final total: %d\<newline>'' [ArgInt (- 1455759935)],
       Printf ''Expected total: %d\<newline>'' [ArgInt (- 1453759936)]],
      Exit 0)"
    unfolding queue_main_def queue_main_gen_finished [OF r f consumers_compiled] e o
    unfolding t ..
  have b: "produced_sum NUM_PRODUCERS ITEMS_PER_PRODUCER = 2000001000000"
    by (simp only: produced_sum_gauss gauss_compiled)
  have c: "unat (- 1455759935 :: c_int) \<noteq> 2000001000000 mod 2 ^ 32" by simp
  have d: "unat (- 1453759936 :: c_int) = 2000001000000 mod 2 ^ 32" by simp
  show ?thesis using a b c d by blast
qed

text \<open>
  C9, as the claim states it: a run whose observed total differs from the expected
  total shows a failure indicator. It fails for the small instance under the
  schedule \<open>double_read\<close>: the run prints the totals 2 and 3 and returns 0, and
  its output has the same lines, digits apart, as the run under \<open>in_turn\<close>, whose
  totals agree.
\<close>

theorem mismatch_printed_without_indicator:
  "queue_main_gen 4 2 2 1 race_env double_read =
     (queue_prologue 2 2 1 race_env @
      [Printf ''Total time: %.6f seconds\<newline>'' [ArgDouble 1],
       Printf ''Operations per second: %.2f million\<newline>'' [ArgDouble (4 / 1000000)],
       Printf ''Final total: %d\<newline>'' [ArgInt 2],
       Printf ''Expected total: %d\<newline>'' [ArgInt 3]],
      Exit 0) \<and>
   queue_main_gen 4 2 2 1 race_env in_turn =
     (queue_prologue 2 2 1 race_env @
      [Printf ''Total time: %.6f seconds\<newline>'' [ArgDouble 1],
       Printf ''Operations per second: %.2f million\<newline>'' [ArgDouble (4 / 1000000)],
       Printf ''Final total: %d\<newline>'' [ArgInt 3],
       Printf ''Expected total: %d\<newline>'' [ArgInt 3]],
      Exit 0) \<and>
   map format_of (fst (queue_main_gen 4 2 2 1 race_env double_read)) =
   map format_of (fst (queue_main_gen 4 2 2 1 race_env in_turn))"
proof -
  have t: "qe_end race_env - qe_start race_env = 1" by (simp add: race_env_def)
  have a: "queue_main_gen 4 2 2 1 race_env double_read =
     (queue_prologue 2 2 1 race_env @
      [Printf ''Total time: %.6f seconds\<newline>'' [ArgDouble 1],
       Printf ''Operations per second: %.2f million\<newline>'' [ArgDouble (4 / 1000000)],
       Printf ''Final total: %d\<newline>'' [ArgInt 2],
       Printf ''Expected total: %d\<newline>'' [ArgInt 3]],
      Exit 0)"
    unfolding queue_main_gen_def run_double_read t
    by (simp add: queue_report_def expected_total_2_1 [unfolded One_nat_def])
  have b: "queue_main_gen 4 2 2 1 race_env in_turn =
     (queue_prologue 2 2 1 race_env @
      [Printf ''Total time: %.6f seconds\<newline>'' [ArgDouble 1],
       Printf ''Operations per second: %.2f million\<newline>'' [ArgDouble (4 / 1000000)],
       Printf ''Final total: %d\<newline>'' [ArgInt 3],
       Printf ''Expected total: %d\<newline>'' [ArgInt 3]],
      Exit 0)"
    unfolding queue_main_gen_def run_in_turn t
    by (simp add: queue_report_def expected_total_2_1 [unfolded One_nat_def])
  show ?thesis unfolding a b by simp
qed

text \<open>
  C9, amended. A run of the queue benchmark returns exactly when all its threads have
  returned; it then returns 0, and its whole output is the nine lines below: the
  opening lines, the time, the throughput, the observed total (the value of
  \<^verbatim>\<open>total\<close> at the end of the run, which is the sum of what the consumers were
  delivered) and the expected total. Nothing else is printed, whether the two totals
  are equal or not.
\<close>

theorem harness_prints_totals_only:
  "queue_main_gen C P Q M env sched = (out, Exit k) \<longleftrightarrow>
     k = 0 \<and> (of_nat Q :: c_int) \<noteq> 0 \<and>
     (\<exists>q' tot ths.
        run_threads ((queue_init (qe_malloc env) C, 0), queue_threads P Q M (qe_junk env))
          sched = Inr ((q', tot), ths) \<and>
        list_all thread_returned ths \<and>
        tot = consumer_total 0 (delivered ths) \<and>
        out =
          [Printf ''CPU Architecture: %s\<newline>''
             [ArgStr (if qe_aarch64 env then ''aarch64'' else ''other'')],
           Printf (if qe_feature_atomics env then ''LSE Atomics: Supported by compiler\<newline>''
                   else ''LSE Atomics: Not supported by compiler\<newline>'') [],
           Printf ''\<newline>Benchmarking lock-free queue with %d producers and %d consumers...\<newline>''
             [ArgInt (of_nat P), ArgInt (of_nat Q)],
           Printf ''Each producer will enqueue %d items\<newline>'' [ArgInt (of_nat M)],
           Printf ''Each consumer will dequeue %d items\<newline>''
             [ArgInt (of_int (sint (of_nat M * of_nat P :: c_int) sdiv sint (of_nat Q :: c_int)))],
           Printf ''Total time: %.6f seconds\<newline>'' [ArgDouble (qe_end env - qe_start env)],
           Printf ''Operations per second: %.2f million\<newline>''
             [ArgDouble (real_of_int (sint (of_nat M * of_nat P * 2 :: c_int)) /
                         (qe_end env - qe_start env) / 1000000)],
           Printf ''Final total: %d\<newline>'' [ArgInt tot],
           Printf ''Expected total: %d\<newline>'' [ArgInt (expected_total P M)]])"
  (is "?L \<longleftrightarrow> ?R")
proof
  assume a: ?L
  have Q: "(of_nat Q :: c_int) \<noteq> 0"
    using a by (auto simp: queue_main_gen_def split: if_splits)
  from a Q obtain q' tot ths where
    r: "run_threads ((queue_init (qe_malloc env) C, 0), queue_threads P Q M (qe_junk env))
          sched = Inr ((q', tot), ths)"
    and f: "list_all thread_returned ths"
    unfolding queue_main_gen_def by (auto split: sum.splits prod.splits if_splits)
  have "queue_main_gen C P Q M env sched =
          (queue_prologue P Q M env @ queue_report P M (qe_end env - qe_start env) tot, Exit 0)"
    using r f Q by (simp add: queue_main_gen_def)
  with a have k: "k = 0"
    and o: "out = queue_prologue P Q M env @ queue_report P M (qe_end env - qe_start env) tot"
    by simp_all
  have t: "tot = consumer_total 0 (delivered ths)" using finished_total [OF r f] .
  show ?R
    using k Q r f t o
    by (simp add: queue_prologue_def banner_def queue_report_def items_per_consumer_def)
next
  assume ?R
  then obtain q' tot ths where k: "k = 0" and Q: "(of_nat Q :: c_int) \<noteq> 0"
    and r: "run_threads ((queue_init (qe_malloc env) C, 0), queue_threads P Q M (qe_junk env))
          sched = Inr ((q', tot), ths)"
    and f: "list_all thread_returned ths"
    and o: "out =
          [Printf ''CPU Architecture: %s\<newline>''
             [ArgStr (if qe_aarch64 env then ''aarch64'' else ''other'')],
           Printf (if qe_feature_atomics env then ''LSE Atomics: Supported by compiler\<newline>''
                   else ''LSE Atomics: Not supported by compiler\<newline>'') [],
           Printf ''\<newline>Benchmarking lock-free queue with %d producers and %d consumers...\<newline>''
             [ArgInt (of_nat P), ArgInt (of_nat Q)],
           Printf ''Each producer will enqueue %d items\<newline>'' [ArgInt (of_nat M)],
           Printf ''Each consumer will dequeue %d items\<newline>''
             [ArgInt (of_int (sint (of_nat M * of_nat P :: c_int) sdiv sint (of_nat Q :: c_int)))],
           Printf ''Total time: %.6f seconds\<newline>'' [ArgDouble (qe_end env - qe_start env)],
           Printf ''Operations per second: %.2f million\<newline>''
             [ArgDouble (real_of_int (sint (of_nat M * of_nat P * 2 :: c_int)) /
                         (qe_end env - qe_start env) / 1000000)],
           Printf ''Final total: %d\<newline>'' [ArgInt tot],
           Printf ''Expected total: %d\<newline>'' [ArgInt (expected_total P M)]]"
    by blast
  show ?L
    unfolding queue_main_gen_finished [OF r f Q] k o
    by (simp add: queue_prologue_def banner_def items_per_consumer_def)
qed

theorem harness_prints_totals_only_witness:
  "queue_main_gen 4 2 2 1 race_env in_turn =
     ([Printf ''CPU Architecture: %s\<newline>'' [ArgStr ''aarch64''],
       Printf ''LSE Atomics: Supported by compiler\<newline>'' [],
       Printf ''\<newline>Benchmarking lock-free queue with %d producers and %d consumers...\<newline>''
         [ArgInt 2, ArgInt 2],
       Printf ''Each producer will enqueue %d items\<newline>'' [ArgInt 1],
       Printf ''Each consumer will dequeue %d items\<newline>'' [ArgInt 1],
       Printf ''Total time: %.6f seconds\<newline>'' [ArgDouble 1],
       Printf ''Operations per second: %.2f million\<newline>'' [ArgDouble (4 / 1000000)],
       Printf ''Final total: %d\<newline>'' [ArgInt 3],
       Printf ''Expected total: %d\<newline>'' [ArgInt 3]],
      Exit 0)"
proof -
  show ?thesis
    apply (rule iffD2 [OF harness_prints_totals_only])
    apply (simp only: run_in_turn)
    apply (simp add: race_env_def signed_divide_int_def expected_total_2_1 [unfolded One_nat_def])
    done
qed

text \<open>
  C10. The counter benchmark checks both allocations: when either fails it prints
  the diagnostic and returns 1 without running a scenario. The queue benchmark does
  not: \<^verbatim>\<open>queue_init\<close> stores the null pointer, \<^verbatim>\<open>main\<close> prints no diagnostic
  and starts the threads, and the first producer that reaches its write dereferences
  the null pointer. Under every schedule the run prints the opening lines only and
  either runs into the null dereference or is still waiting for its threads.
\<close>

theorem queue_alloc_failure_unchecked:
  "lse_main (lenv\<lparr>le_malloc_lse := None\<rparr>) lsched =
     (banner (le_aarch64 lenv) (le_feature_atomics lenv) @ [Perror ''malloc''], Exit 1) \<and>
   lse_main (lenv\<lparr>le_malloc_ldstex := None\<rparr>) lsched =
     (banner (le_aarch64 lenv) (le_feature_atomics lenv) @ [Perror ''malloc''], Exit 1) \<and>
   queue_init None QUEUE_SIZE = \<lparr>buffer = None, head = 0, tail = 0, size_q = QUEUE_SIZE\<rparr> \<and>
   queue_enqueue (queue_init None QUEUE_SIZE) item = Inl NullDeref \<and>
   queue_main (env\<lparr>qe_malloc := None\<rparr>) (2 # 2 # 2 # sched) =
     (queue_prologue NUM_PRODUCERS NUM_CONSUMERS ITEMS_PER_PRODUCER env, Crash NullDeref) \<and>
   queue_prologue NUM_PRODUCERS NUM_CONSUMERS ITEMS_PER_PRODUCER env =
     banner (qe_aarch64 env) (qe_feature_atomics env) @
     [Printf ''\<newline>Benchmarking lock-free queue with %d producers and %d consumers...\<newline>''
        [ArgInt 2, ArgInt 2],
      Printf ''Each producer will enqueue %d items\<newline>'' [ArgInt 1000000],
      Printf ''Each consumer will dequeue %d items\<newline>'' [ArgInt 1000000]] \<and>
   fst (queue_main (env\<lparr>qe_malloc := None\<rparr>) any_sched) =
     queue_prologue NUM_PRODUCERS NUM_CONSUMERS ITEMS_PER_PRODUCER env \<and>
   (snd (queue_main (env\<lparr>qe_malloc := None\<rparr>) any_sched) = Crash NullDeref \<or>
    snd (queue_main (env\<lparr>qe_malloc := None\<rparr>) any_sched) = Waiting)"
proof -
  have a: "lse_main (lenv\<lparr>le_malloc_lse := None\<rparr>) lsched =
     (banner (le_aarch64 lenv) (le_feature_atomics lenv) @ [Perror ''malloc''], Exit 1)"
    by (simp add: lse_main_def)
  have b: "lse_main (lenv\<lparr>le_malloc_ldstex := None\<rparr>) lsched =
     (banner (le_aarch64 lenv) (le_feature_atomics lenv) @ [Perror ''malloc''], Exit 1)"
    by (simp add: lse_main_def)
  have c: "queue_init None QUEUE_SIZE =
     \<lparr>buffer = None, head = 0, tail = 0, size_q = QUEUE_SIZE\<rparr>"
    by (simp add: queue_init_def)
  have d: "queue_enqueue (queue_init None QUEUE_SIZE) item = Inl NullDeref"
    by (simp add: queue_init_def queue_enqueue_def QUEUE_SIZE_def)
  have r: "run_threads
     ((queue_init (qe_malloc (env\<lparr>qe_malloc := None\<rparr>)) QUEUE_SIZE, 0),
      queue_threads NUM_PRODUCERS NUM_CONSUMERS ITEMS_PER_PRODUCER
        (qe_junk (env\<lparr>qe_malloc := None\<rparr>)))
     (2 # 2 # 2 # sched) = Inl NullDeref"
    by (simp add: queue_threads_compiled QUEUE_SIZE_def step_defs)
  have e: "queue_main (env\<lparr>qe_malloc := None\<rparr>) (2 # 2 # 2 # sched) =
     (queue_prologue NUM_PRODUCERS NUM_CONSUMERS ITEMS_PER_PRODUCER env, Crash NullDeref)"
    unfolding queue_main_def queue_main_gen_def r
    by (simp add: queue_prologue_def consumers_compiled)
  have f: "queue_prologue NUM_PRODUCERS NUM_CONSUMERS ITEMS_PER_PRODUCER env =
     banner (qe_aarch64 env) (qe_feature_atomics env) @
     [Printf ''\<newline>Benchmarking lock-free queue with %d producers and %d consumers...\<newline>''
        [ArgInt 2, ArgInt 2],
      Printf ''Each producer will enqueue %d items\<newline>'' [ArgInt 1000000],
      Printf ''Each consumer will dequeue %d items\<newline>'' [ArgInt 1000000]]"
    unfolding queue_prologue_def items_per_consumer_compiled
    by (simp add: NUM_PRODUCERS_def NUM_CONSUMERS_def ITEMS_PER_PRODUCER_def)
  show ?thesis using a b c d e f null_buffer_never_exits [of env any_sched] by blast
qed

end
